theory Spec2Isabelle
  imports Complex_Main
begin

section \<open>MNIST classification: the elementary logistic regression\<close>

text \<open>
  The development follows the notebook \<^verbatim>\<open>code/part2_classification.ipynb\<close>: the
  utility \<^verbatim>\<open>evaluate\<close>, the graph of the name scopes \<^verbatim>\<open>elementary_network\<close>,
  \<^verbatim>\<open>elementary_loss\<close> and \<^verbatim>\<open>elementary_training\<close>, and the training loop.

  The notebook builds a deferred TensorFlow graph and runs it in a session. Each tensor
  of the graph becomes a function of the values it is computed from: the fed
  placeholders and the current values of the two variables. The session's variables are
  an explicit state.

  The \<^verbatim>\<open>float32\<close> tensors are read in two ways. For what depends on the structure of
  the graph and of the session only (shapes, which variables a run assigns, the loop,
  the accuracy as a count of equal classes) and for the analysis of the graph in exact
  arithmetic, their entries are real numbers; the one undefined value that exact
  arithmetic itself produces, the mean of an empty tensor (0/0), is kept as \<open>NaN\<close>.
  For the value of the objective, the forward pass and the loss are given again in
  single precision, with rounding, overflow, underflow, infinities and NaN.
\<close>

subsection \<open>Values and errors\<close>

type_synonym vector = "real list"

text \<open>A matrix is the list of its rows.\<close>

type_synonym matrix = "real list list"

datatype scalar = Val real | NaN

text \<open>
  \<open>ShapeMismatch\<close>: the \<^verbatim>\<open>ValueError\<close> of static shape inference while the graph is
  built. \<open>FeedError\<close>: the \<^verbatim>\<open>ValueError\<close> of \<^verbatim>\<open>session.run\<close> for a fed value that does
  not fit its placeholder. \<open>MissingFeed\<close>: a fetched tensor needs a placeholder that was
  not fed. \<open>IncompatibleShapes\<close>: the \<^verbatim>\<open>InvalidArgumentError\<close> of an elementwise
  operation whose operands cannot be broadcast at run time. \<open>ReshapeError\<close>: the
  \<^verbatim>\<open>ValueError\<close> of \<^verbatim>\<open>np.reshape\<close>.
\<close>

datatype error =
  ShapeMismatch | FeedError | MissingFeed | IncompatibleShapes | ReshapeError | AttributeError

text \<open>A numpy array: its shape and its entries in row-major order.\<close>

record ndarray =
  shape :: "nat list"
  data :: "real list"

definition wf_ndarray :: "ndarray \<Rightarrow> bool" where
  "wf_ndarray a \<longleftrightarrow> length (data a) = prod_list (shape a)"

text \<open>The \<open>n\<close> rows of length \<open>d\<close> of a row-major array.\<close>

definition rows_of :: "nat \<Rightarrow> nat \<Rightarrow> real list \<Rightarrow> matrix" where
  "rows_of n d xs = map (\<lambda>i. take d (drop (i * d) xs)) [0..<n]"

text \<open>
  \<^verbatim>\<open>np.reshape(a, [-1, *dims])\<close>: the entries are kept, the leading dimension is
  inferred; it raises when the size is not a multiple of the product of \<open>dims\<close>.
\<close>

definition np_reshape :: "ndarray \<Rightarrow> nat list \<Rightarrow> error + ndarray" where
  "np_reshape a dims =
     (let d = prod_list dims; size = length (data a) in
      if d = 0 \<or> size mod d \<noteq> 0 then Inl ReshapeError
      else Inr \<lparr>shape = (size div d) # dims, data = data a\<rparr>)"

subsection \<open>Tensor operations\<close>

definition dot :: "vector \<Rightarrow> vector \<Rightarrow> real" where
  "dot u v = sum_list (map2 (*) u v)"

definition col :: "matrix \<Rightarrow> nat \<Rightarrow> vector" where
  "col M k = map (\<lambda>r. r ! k) M"

definition ncols :: "matrix \<Rightarrow> nat" where
  "ncols M = (case M of [] \<Rightarrow> 0 | r # _ \<Rightarrow> length r)"

text \<open>\<^verbatim>\<open>tf.matmul(a, b)\<close>: entry \<open>(n, k)\<close> is the product of row \<open>n\<close> of \<open>a\<close> and column \<open>k\<close> of \<open>b\<close>.\<close>

definition matmul :: "matrix \<Rightarrow> matrix \<Rightarrow> matrix" where
  "matmul A B = map (\<lambda>a. map (\<lambda>k. dot a (col B k)) [0..<ncols B]) A"

text \<open>\<^verbatim>\<open>tf.argmax\<close> along a row: the first index that holds the largest entry.\<close>

primrec argmax_aux :: "nat \<Rightarrow> real \<Rightarrow> nat \<Rightarrow> real list \<Rightarrow> nat" where
  "argmax_aux best bv i [] = best"
| "argmax_aux best bv i (v # vs) =
     (if bv < v then argmax_aux i v (Suc i) vs else argmax_aux best bv (Suc i) vs)"

definition argmax :: "real list \<Rightarrow> nat" where
  "argmax xs = (case xs of [] \<Rightarrow> 0 | v # vs \<Rightarrow> argmax_aux 0 v 1 vs)"

text \<open>\<^verbatim>\<open>tf.one_hot(labels, depth)\<close>: a label outside \<open>0..<depth\<close> gives a row of zeros.\<close>

definition one_hot :: "int list \<Rightarrow> nat \<Rightarrow> matrix" where
  "one_hot ls depth = map (\<lambda>l. map (\<lambda>k. if l = int k then 1 else 0) [0..<depth]) ls"

text \<open>
  The elementwise product of two tensors of static shape \<^verbatim>\<open>(None, 10)\<close>: at run time the
  leading dimensions must be equal, or one of them 1 (it is then broadcast).
\<close>

definition broadcast_to :: "nat \<Rightarrow> matrix \<Rightarrow> matrix" where
  "broadcast_to n M = (if length M = n then M else replicate n (hd M))"

definition broadcast_rows :: "nat \<Rightarrow> nat \<Rightarrow> nat option" where
  "broadcast_rows a b =
     (if a = b \<or> b = 1 then Some a else if a = 1 then Some b else None)"

definition mul :: "matrix \<Rightarrow> matrix \<Rightarrow> error + matrix" where
  "mul A B =
     (case broadcast_rows (length A) (length B) of
        None \<Rightarrow> Inl IncompatibleShapes
      | Some n \<Rightarrow> Inr (map2 (map2 (*)) (broadcast_to n A) (broadcast_to n B)))"

text \<open>\<^verbatim>\<open>tf.reduce_mean\<close> over all entries; the mean of an empty tensor is NaN.\<close>

definition reduce_mean :: "matrix \<Rightarrow> scalar" where
  "reduce_mean M =
     (let xs = concat M in
      if xs = [] then NaN else Val (sum_list xs / real (length xs)))"

fun neg :: "scalar \<Rightarrow> scalar" where
  "neg (Val v) = Val (- v)"
| "neg NaN = NaN"

subsection \<open>The variables and the network\<close>

text \<open>
  \<^verbatim>\<open>weights = tf.Variable(tf.random_normal((784, 10)))\<close> and
  \<^verbatim>\<open>bias = tf.Variable(tf.zeros((10)))\<close>: the only mutable state.
\<close>

record variables =
  weights :: matrix
  bias :: vector

definition is_matrix :: "nat \<Rightarrow> nat \<Rightarrow> matrix \<Rightarrow> bool" where
  "is_matrix r c M \<longleftrightarrow> length M = r \<and> (\<forall>row \<in> set M. length row = c)"

definition shape_ok :: "variables \<Rightarrow> bool" where
  "shape_ok s \<longleftrightarrow> is_matrix 784 10 (weights s) \<and> length (bias s) = 10"

text \<open>
  \<^verbatim>\<open>global_variables_initializer\<close>: the weights are the matrix drawn by
  \<^verbatim>\<open>random_normal\<close>, whatever it is, and the bias is zero.
\<close>

definition init :: "(nat \<Rightarrow> nat \<Rightarrow> real) \<Rightarrow> variables" where
  "init random_normal =
     \<lparr>weights = map (\<lambda>i. map (\<lambda>k. random_normal i k) [0..<10]) [0..<784],
      bias = replicate 10 0\<rparr>"

text \<open>The tensors of \<^verbatim>\<open>elementary_network\<close>, for the fed rows \<open>x\<close>.\<close>

definition lin :: "variables \<Rightarrow> matrix \<Rightarrow> matrix" where
  "lin s x = map (\<lambda>row. map2 (+) row (bias s)) (matmul x (weights s))"

definition elin :: "variables \<Rightarrow> matrix \<Rightarrow> matrix" where
  "elin s x = map (map exp) (lin s x)"

text \<open>\<^verbatim>\<open>keep_dims=True\<close>: one row sum per row, as a column.\<close>

definition Z :: "variables \<Rightarrow> matrix \<Rightarrow> matrix" where
  "Z s x = map (\<lambda>row. [sum_list row]) (elin s x)"

definition prob :: "variables \<Rightarrow> matrix \<Rightarrow> matrix" where
  "prob s x = map2 (\<lambda>row z. map (\<lambda>e. e / hd z) row) (elin s x) (Z s x)"

definition log_prob :: "variables \<Rightarrow> matrix \<Rightarrow> matrix" where
  "log_prob s x = map (map ln) (prob s x)"

definition pred :: "variables \<Rightarrow> matrix \<Rightarrow> int list" where
  "pred s x = map (\<lambda>row. int (argmax row)) (log_prob s x)"

text \<open>The tensors of \<^verbatim>\<open>elementary_loss\<close>, for the fed labels \<open>ls\<close>.\<close>

definition determ :: "int list \<Rightarrow> matrix" where
  "determ ls = one_hot ls 10"

definition loss :: "variables \<Rightarrow> matrix \<Rightarrow> int list \<Rightarrow> error + scalar" where
  "loss s x ls =
     (case mul (determ ls) (log_prob s x) of
        Inl e \<Rightarrow> Inl e
      | Inr p \<Rightarrow> Inr (neg (reduce_mean p)))"


subsection \<open>The gradients and the update\<close>

text \<open>
  \<^verbatim>\<open>gradients = tf.gradients(loss, variables)\<close>: reverse-mode differentiation, one
  gradient function per operation of the graph, from the loss back to the variables.
  \<open>colsums\<close> is the sum over the batch axis that undoes a broadcast along it.
\<close>

definition colsums :: "matrix \<Rightarrow> vector" where
  "colsums M = map (\<lambda>k. sum_list (col M k)) [0..<10]"

definition unbroadcast :: "nat \<Rightarrow> matrix \<Rightarrow> matrix" where
  "unbroadcast b M = (if length M = b then M else [colsums M])"

text \<open>Through \<^verbatim>\<open>-tf.reduce_mean(p)\<close>: every entry of \<open>p\<close> receives \<open>-1 / size\<close>.\<close>

definition grad_p :: "nat \<Rightarrow> matrix" where
  "grad_p n = replicate n (replicate 10 (- 1 / real (n * 10)))"

text \<open>Through \<^verbatim>\<open>determ * log_prob\<close>, to \<^verbatim>\<open>log_prob\<close>.\<close>

definition grad_log_prob :: "variables \<Rightarrow> matrix \<Rightarrow> int list \<Rightarrow> error + matrix" where
  "grad_log_prob s x ls =
     (case broadcast_rows (length (determ ls)) (length (log_prob s x)) of
        None \<Rightarrow> Inl IncompatibleShapes
      | Some n \<Rightarrow>
          Inr (unbroadcast (length (log_prob s x))
                 (map2 (map2 (*)) (grad_p n) (broadcast_to n (determ ls)))))"

text \<open>Through \<^verbatim>\<open>tf.log(prob)\<close>.\<close>

definition grad_prob :: "variables \<Rightarrow> matrix \<Rightarrow> matrix \<Rightarrow> matrix" where
  "grad_prob s x g = map2 (map2 (/)) g (prob s x)"

text \<open>
  Through \<^verbatim>\<open>elin / Z\<close>: to the numerator, and to the denominator (summed over the
  broadcast axis); the latter goes on through \<^verbatim>\<open>tf.reduce_sum\<close> to \<^verbatim>\<open>elin\<close>, and the two
  contributions are added.
\<close>

definition grad_Z :: "variables \<Rightarrow> matrix \<Rightarrow> matrix \<Rightarrow> matrix" where
  "grad_Z s x g =
     map (\<lambda>(grow, erow, z). [sum_list (map2 (\<lambda>gv e. gv * (- e / (hd z)\<^sup>2)) grow erow)])
       (zip g (zip (elin s x) (Z s x)))"

definition grad_elin :: "variables \<Rightarrow> matrix \<Rightarrow> matrix \<Rightarrow> matrix" where
  "grad_elin s x g =
     map (\<lambda>(grow, z, gz). map (\<lambda>gv. gv / hd z + hd gz) grow)
       (zip g (zip (Z s x) (grad_Z s x g)))"

text \<open>Through \<^verbatim>\<open>tf.exp(lin)\<close>.\<close>

definition grad_lin :: "variables \<Rightarrow> matrix \<Rightarrow> matrix \<Rightarrow> matrix" where
  "grad_lin s x g = map2 (map2 (*)) g (elin s x)"

text \<open>
  Through \<^verbatim>\<open>tf.matmul(inp, weights) + bias\<close>: the bias receives the sum over the batch,
  the weights the product of the transposed input and the incoming gradient.
\<close>

definition grad_bias :: "matrix \<Rightarrow> vector" where
  "grad_bias g = colsums g"

definition grad_weights :: "matrix \<Rightarrow> matrix \<Rightarrow> matrix" where
  "grad_weights x g = map (\<lambda>i. map (\<lambda>k. dot (col x i) (col g k)) [0..<10]) [0..<784]"

definition gradients :: "variables \<Rightarrow> matrix \<Rightarrow> int list \<Rightarrow> error + matrix \<times> vector" where
  "gradients s x ls =
     (case grad_log_prob s x ls of
        Inl e \<Rightarrow> Inl e
      | Inr g \<Rightarrow>
          (let g_lin = grad_lin s x (grad_elin s x (grad_prob s x g))
           in Inr (grad_weights x g_lin, grad_bias g_lin)))"

text \<open>
  \<^verbatim>\<open>update_ops = [var.assign(var - learning_rate*grad) for var, grad in
  zip(variables, gradients)]\<close>. Both gradients are computed from the values the
  variables have when the run starts: each assignment depends on its gradient, which
  depends on the one read of both variables in \<^verbatim>\<open>lin\<close>.
\<close>

definition learning_rate :: real where
  "learning_rate = 0.1"

definition update_ops :: "real \<Rightarrow> variables \<Rightarrow> matrix \<Rightarrow> int list \<Rightarrow> error + variables" where
  "update_ops rate s x ls =
     (case gradients s x ls of
        Inl e \<Rightarrow> Inl e
      | Inr (gw, gb) \<Rightarrow>
          Inr \<lparr>weights = map2 (map2 (\<lambda>v g. v - rate * g)) (weights s) gw,
               bias = map2 (\<lambda>v g. v - rate * g) (bias s) gb\<rparr>)"

subsection \<open>The session\<close>

text \<open>
  \<^verbatim>\<open>inp = tf.placeholder(shape=(None, 784))\<close> and
  \<^verbatim>\<open>labels = tf.placeholder(shape=(None,), dtype=tf.int32)\<close>. A fed array must have
  the rank of its placeholder and agree with it in every known dimension.
\<close>

record feed_dict =
  inp_feed :: "ndarray option"
  labels_feed :: "int list option"

definition feed_inp :: "feed_dict \<Rightarrow> error + matrix" where
  "feed_inp fd =
     (case inp_feed fd of
        None \<Rightarrow> Inl MissingFeed
      | Some a \<Rightarrow>
          (case shape a of
             [n, d] \<Rightarrow> if d = 784 then Inr (rows_of n 784 (data a)) else Inl FeedError
           | _ \<Rightarrow> Inl FeedError))"

definition feed_labels :: "feed_dict \<Rightarrow> error + int list" where
  "feed_labels fd = (case labels_feed fd of None \<Rightarrow> Inl MissingFeed | Some ls \<Rightarrow> Inr ls)"

text \<open>
  What the notebook asks the session for: the tensor \<^verbatim>\<open>pred\<close>, the tensor \<^verbatim>\<open>loss\<close>, or
  the list \<^verbatim>\<open>update_ops\<close>. A run returns the fetched value and the variables after it.
\<close>

datatype fetch = Pred | Loss | Update_ops

datatype fetched = Classes "int list" | Number scalar | Updated

fun session_run :: "fetch \<Rightarrow> feed_dict \<Rightarrow> variables \<Rightarrow> error + fetched \<times> variables" where
  "session_run Pred fd s =
     (case feed_inp fd of
        Inl e \<Rightarrow> Inl e
      | Inr x \<Rightarrow> Inr (Classes (pred s x), s))"
| "session_run Loss fd s =
     (case feed_inp fd of
        Inl e \<Rightarrow> Inl e
      | Inr x \<Rightarrow>
          (case feed_labels fd of
             Inl e \<Rightarrow> Inl e
           | Inr ls \<Rightarrow>
               (case loss s x ls of
                  Inl e \<Rightarrow> Inl e
                | Inr v \<Rightarrow> Inr (Number v, s))))"
| "session_run Update_ops fd s =
     (case feed_inp fd of
        Inl e \<Rightarrow> Inl e
      | Inr x \<Rightarrow>
          (case feed_labels fd of
             Inl e \<Rightarrow> Inl e
           | Inr ls \<Rightarrow>
               (case update_ops learning_rate s x ls of
                  Inl e \<Rightarrow> Inl e
                | Inr s' \<Rightarrow> Inr (Updated, s'))))"


subsection \<open>Evaluation\<close>

text \<open>
  \<^verbatim>\<open>result == test_labels\<close> on numpy arrays of rank 1: elementwise when the lengths
  agree, broadcast when one of them is 1, and the scalar \<^verbatim>\<open>False\<close> (with a deprecation
  warning, in the numpy of the notebook) when the comparison fails. A fetched scalar
  is compared with every label.
\<close>

definition np_equal :: "int list \<Rightarrow> int list \<Rightarrow> bool list" where
  "np_equal r l =
     (if length r = length l then map2 (=) r l
      else if length r = 1 then map (\<lambda>v. hd r = v) l
      else if length l = 1 then map (\<lambda>v. v = hd l) r
      else [False])"

fun result_equal :: "fetched \<Rightarrow> int list \<Rightarrow> bool list" where
  "result_equal (Classes r) l = np_equal r l"
| "result_equal (Number (Val v)) l = map (\<lambda>c. v = of_int c) l"
| "result_equal (Number NaN) l = map (\<lambda>c. False) l"
| "result_equal Updated l = [False]"

text \<open>\<^verbatim>\<open>np.mean\<close> of booleans: the fraction that is true; NaN for an empty array.\<close>

definition np_mean :: "bool list \<Rightarrow> scalar" where
  "np_mean bs =
     (if bs = [] then NaN else Val (real (length (filter id bs)) / real (length bs)))"

text \<open>\<^verbatim>\<open>result_tensor.eval(feed_dict)\<close>; the list \<^verbatim>\<open>update_ops\<close> has no method \<^verbatim>\<open>eval\<close>.\<close>

definition tensor_eval :: "fetch \<Rightarrow> feed_dict \<Rightarrow> variables \<Rightarrow> error + fetched \<times> variables" where
  "tensor_eval t fd s = (if t = Update_ops then Inl AttributeError else session_run t fd s)"

text \<open>
  \<^verbatim>\<open>evaluate(result_tensor, data_placeholder)\<close>, with the globals \<^verbatim>\<open>test_images\<close> and
  \<^verbatim>\<open>test_labels\<close> as arguments. Every call of the notebook passes \<^verbatim>\<open>inp\<close> as
  \<^verbatim>\<open>data_placeholder\<close>, whose \<^verbatim>\<open>shape[1:]\<close> is \<open>[784]\<close>; only that placeholder is fed.
\<close>

definition evaluate :: "ndarray \<Rightarrow> int list \<Rightarrow> fetch \<Rightarrow> variables \<Rightarrow> error + scalar \<times> variables" where
  "evaluate test_images test_labels result_tensor s =
     (case np_reshape test_images [784] of
        Inl e \<Rightarrow> Inl e
      | Inr feed_images \<Rightarrow>
          (case tensor_eval result_tensor \<lparr>inp_feed = Some feed_images, labels_feed = None\<rparr> s of
             Inl e \<Rightarrow> Inl e
           | Inr (result, s') \<Rightarrow> Inr (np_mean (result_equal result test_labels), s')))"

subsection \<open>The training loop\<close>

text \<open>
  The data source: \<open>next_batch i\<close> is what the call of \<^verbatim>\<open>mnist.train.next_batch(128)\<close>
  in iteration \<open>i\<close> returns; the held-out images and labels are fixed.
\<close>

record dataset =
  next_batch :: "nat \<Rightarrow> ndarray \<times> int list"
  test_images :: ndarray
  test_labels :: "int list"

record loop_state =
  session :: variables
  printed :: "scalar list"

fun times100 :: "scalar \<Rightarrow> scalar" where
  "times100 (Val v) = Val (v * 100)"
| "times100 NaN = NaN"

definition batch_feed :: "dataset \<Rightarrow> nat \<Rightarrow> feed_dict" where
  "batch_feed mnist i =
     (case next_batch mnist i of (inp_v, labels_v) \<Rightarrow>
        \<lparr>inp_feed = Some inp_v, labels_feed = Some labels_v\<rparr>)"

definition loop_body :: "dataset \<Rightarrow> nat \<Rightarrow> loop_state \<Rightarrow> error + loop_state" where
  "loop_body mnist i st =
     (case session_run Update_ops (batch_feed mnist i) (session st) of
        Inl e \<Rightarrow> Inl e
      | Inr (_, s') \<Rightarrow>
          if i mod 1000 = 0 then
            (case evaluate (test_images mnist) (test_labels mnist) Pred s' of
               Inl e \<Rightarrow> Inl e
             | Inr (m, s'') \<Rightarrow> Inr \<lparr>session = s'', printed = printed st @ [times100 m]\<rparr>)
          else Inr \<lparr>session = s', printed = printed st\<rparr>)"

text \<open>\<^verbatim>\<open>for i in range(n)\<close>; the notebook has \<open>n = 100000\<close>. An exception ends the loop.\<close>

function training_loop :: "dataset \<Rightarrow> nat \<Rightarrow> nat \<Rightarrow> loop_state \<Rightarrow> error + loop_state" where
  "training_loop mnist n i st =
     (if i < n then
        (case loop_body mnist i st of
           Inl e \<Rightarrow> Inl e
         | Inr st' \<Rightarrow> training_loop mnist n (Suc i) st')
      else Inr st)"
  by pat_completeness auto
termination
  by (relation "measure (\<lambda>(mnist, n, i, st). n - i)") auto

declare training_loop.simps [simp del]

text \<open>
  The optimizer steps alone: \<open>k\<close> runs of \<^verbatim>\<open>update_ops\<close>, one after the other, on the
  batches of the iterations \<open>i\<close>, \<open>i + 1\<close>, ... and nothing else.
\<close>

fun optimizer_steps :: "dataset \<Rightarrow> nat \<Rightarrow> nat \<Rightarrow> variables \<Rightarrow> error + variables" where
  "optimizer_steps mnist i 0 s = Inr s"
| "optimizer_steps mnist i (Suc k) s =
     (case session_run Update_ops (batch_feed mnist i) s of
        Inl e \<Rightarrow> Inl e
      | Inr (_, s') \<Rightarrow> optimizer_steps mnist (Suc i) k s')"

text \<open>A batch as the data source returns it: \<open>n\<close> images of 784 pixels and \<open>n\<close> labels.\<close>

definition wf_batch :: "ndarray \<times> int list \<Rightarrow> bool" where
  "wf_batch b \<longleftrightarrow> (case b of (a, ls) \<Rightarrow> wf_ndarray a \<and> shape a = [length ls, 784])"

subsection \<open>Building the graph\<close>

text \<open>
  Static shape inference while \<^verbatim>\<open>elementary_network\<close> is built, for a placeholder of
  shape \<^verbatim>\<open>(None, d)\<close>, weights of shape \<^verbatim>\<open>(r, c)\<close> and a bias of shape \<^verbatim>\<open>(k)\<close>:
  \<^verbatim>\<open>tf.matmul\<close> raises unless \<open>d = r\<close>, the addition raises unless \<open>c\<close> and \<open>k\<close> can be
  broadcast. The result is the number of columns of \<^verbatim>\<open>lin\<close>. The notebook builds
  \<open>elementary_network 784 (784, 10) 10\<close>.
\<close>

definition elementary_network :: "nat \<Rightarrow> nat \<times> nat \<Rightarrow> nat \<Rightarrow> error + nat" where
  "elementary_network d w k =
     (case w of (r, c) \<Rightarrow>
        if d \<noteq> r then Inl ShapeMismatch
        else if c = k \<or> k = 1 \<or> c = 1 then Inr (max c k)
        else Inl ShapeMismatch)"

subsection \<open>The objective as a real function\<close>

text \<open>The value of \<^verbatim>\<open>loss\<close> where it is a number; used to state derivatives.\<close>

definition objective :: "variables \<Rightarrow> matrix \<Rightarrow> int list \<Rightarrow> real" where
  "objective s x ls = (case loss s x ls of Inr (Val v) \<Rightarrow> v | _ \<Rightarrow> 0)"

subsection \<open>Quantities of the descent argument\<close>

text \<open>
  Softmax minus one-hot over the size of the product tensor: the gradient that arrives
  at \<^verbatim>\<open>lin\<close>, in closed form.
\<close>

definition softmax_minus_onehot :: "variables \<Rightarrow> matrix \<Rightarrow> int list \<Rightarrow> nat \<Rightarrow> nat \<Rightarrow> real" where
  "softmax_minus_onehot s x ls n k =
     (prob s x ! n ! k * (\<Sum>j<10. if ls ! n = int j then 1 else 0)
        - (if ls ! n = int k then 1 else 0)) / real (length x * 10)"

text \<open>How much a step along the gradient \<open>(gw, gb)\<close> moves the entry \<open>(n, j)\<close> of \<^verbatim>\<open>lin\<close>.\<close>

definition logit_shift :: "matrix \<Rightarrow> matrix \<Rightarrow> vector \<Rightarrow> nat \<Rightarrow> nat \<Rightarrow> real" where
  "logit_shift x gw gb n j = (\<Sum>i<784. x ! n ! i * gw ! i ! j) + gb ! j"

text \<open>The squared norm of a gradient, and of a batch with a constant 1 added to each row.\<close>

definition grad_norm2 :: "matrix \<Rightarrow> vector \<Rightarrow> real" where
  "grad_norm2 gw gb = (\<Sum>j<10. (\<Sum>i<784. (gw ! i ! j)\<^sup>2) + (gb ! j)\<^sup>2)"

definition batch_norm2 :: "matrix \<Rightarrow> real" where
  "batch_norm2 x = (\<Sum>n<length x. (\<Sum>i<784. (x ! n ! i)\<^sup>2) + 1)"

subsection \<open>Quantities of the separation argument\<close>

text \<open>The inner product of two parameter sets, given as weights and bias.\<close>

definition param_inner :: "matrix \<Rightarrow> vector \<Rightarrow> matrix \<Rightarrow> vector \<Rightarrow> real" where
  "param_inner w1 b1 w2 b2 = (\<Sum>j<10. (\<Sum>i<784. w1 ! i ! j * w2 ! i ! j) + b1 ! j * b2 ! j)"

text \<open>The parameters after one run of \<^verbatim>\<open>update_ops\<close> with the rate of the notebook.\<close>

definition gd_step :: "matrix \<Rightarrow> int list \<Rightarrow> variables \<Rightarrow> variables" where
  "gd_step x ls s = (case update_ops learning_rate s x ls of Inr s' \<Rightarrow> s' | Inl e \<Rightarrow> s)"

text \<open>
  A data source whose every batch is the same two samples \<open>x1\<close> and \<open>x2\<close> with the labels
  \<open>l1\<close> and \<open>l2\<close>, which are the held-out data as well.
\<close>

definition two_samples :: "vector \<Rightarrow> vector \<Rightarrow> ndarray" where
  "two_samples x1 x2 = \<lparr>shape = [2, 784], data = x1 @ x2\<rparr>"

definition two_sample_dataset :: "vector \<Rightarrow> vector \<Rightarrow> int \<Rightarrow> int \<Rightarrow> dataset" where
  "two_sample_dataset x1 x2 l1 l2 =
     \<lparr>next_batch = (\<lambda>i. (two_samples x1 x2, [l1, l2])),
      test_images = two_samples x1 x2,
      test_labels = [l1, l2]\<rparr>"

subsection \<open>Concrete values\<close>

text \<open>The parameters with all weights zero, and arrays of black images.\<close>

definition zero_variables :: variables where
  "zero_variables = \<lparr>weights = replicate 784 (replicate 10 0), bias = replicate 10 0\<rparr>"

definition zero_images :: "nat list \<Rightarrow> ndarray" where
  "zero_images sh = \<lparr>shape = sh, data = replicate (prod_list sh) 0\<rparr>"

text \<open>A data source that returns one black image with the label 0, again and again.\<close>

definition zero_dataset :: dataset where
  "zero_dataset =
     \<lparr>next_batch = (\<lambda>i. (zero_images [1, 784], [0])),
      test_images = zero_images [1, 28, 28, 1],
      test_labels = [0]\<rparr>"

section \<open>The objective in single precision\<close>

text \<open>
  The tensors of the graph hold \<^verbatim>\<open>float32\<close> numbers, and the value of the objective
  depends on it: \<^verbatim>\<open>tf.exp\<close> overflows to infinity and underflows to zero, and
  \<^verbatim>\<open>0 * -inf\<close> is NaN. The forward pass and the loss are therefore given a second
  time, with every arithmetic operation rounded to single precision. The names of this
  reading end in \<open>32\<close>.
\<close>

subsection \<open>Single-precision numbers and their arithmetic\<close>

text \<open>
  A \<^verbatim>\<open>float32\<close>: a finite number, an infinity or NaN. Zero carries no sign; it behaves
  as the positive zero.
\<close>

datatype float32 = Finite real | PlusInfinity | MinusInfinity | NotANumber

text \<open>
  How the platform rounds is a parameter: \<open>rounded\<close> gives the single-precision result
  of an exact sum, product or quotient of finite numbers, \<open>exp32\<close> the result of
  \<^verbatim>\<open>tf.exp\<close> at a finite number and \<open>log32\<close> the result of \<^verbatim>\<open>tf.log\<close> at a positive finite
  number. Operands are used as they are.
\<close>

record arithmetic =
  rounded :: "real \<Rightarrow> float32"
  exp32 :: "real \<Rightarrow> float32"
  log32 :: "real \<Rightarrow> float32"

text \<open>The operations on infinities and NaN follow IEEE 754.\<close>

fun f32_neg :: "float32 \<Rightarrow> float32" where
  "f32_neg (Finite a) = Finite (- a)"
| "f32_neg PlusInfinity = MinusInfinity"
| "f32_neg MinusInfinity = PlusInfinity"
| "f32_neg NotANumber = NotANumber"

fun f32_add :: "arithmetic \<Rightarrow> float32 \<Rightarrow> float32 \<Rightarrow> float32" where
  "f32_add ar (Finite a) (Finite b) = rounded ar (a + b)"
| "f32_add ar NotANumber b = NotANumber"
| "f32_add ar a NotANumber = NotANumber"
| "f32_add ar PlusInfinity MinusInfinity = NotANumber"
| "f32_add ar MinusInfinity PlusInfinity = NotANumber"
| "f32_add ar PlusInfinity b = PlusInfinity"
| "f32_add ar a PlusInfinity = PlusInfinity"
| "f32_add ar MinusInfinity b = MinusInfinity"
| "f32_add ar a MinusInfinity = MinusInfinity"

text \<open>Zero times an infinity is NaN.\<close>

fun f32_mul :: "arithmetic \<Rightarrow> float32 \<Rightarrow> float32 \<Rightarrow> float32" where
  "f32_mul ar (Finite a) (Finite b) = rounded ar (a * b)"
| "f32_mul ar NotANumber b = NotANumber"
| "f32_mul ar a NotANumber = NotANumber"
| "f32_mul ar (Finite a) b = (if a = 0 then NotANumber else if 0 < a then b else f32_neg b)"
| "f32_mul ar a (Finite b) = (if b = 0 then NotANumber else if 0 < b then a else f32_neg a)"
| "f32_mul ar PlusInfinity b = b"
| "f32_mul ar MinusInfinity b = f32_neg b"

text \<open>
  Zero by zero and infinity by infinity are NaN; another number by zero is an infinity;
  a finite number by an infinity is zero.
\<close>

fun f32_div :: "arithmetic \<Rightarrow> float32 \<Rightarrow> float32 \<Rightarrow> float32" where
  "f32_div ar (Finite a) (Finite b) =
     (if b = 0 then (if a = 0 then NotANumber else if 0 < a then PlusInfinity else MinusInfinity)
      else rounded ar (a / b))"
| "f32_div ar NotANumber b = NotANumber"
| "f32_div ar a NotANumber = NotANumber"
| "f32_div ar (Finite a) b = Finite 0"
| "f32_div ar a (Finite b) = (if 0 \<le> b then a else f32_neg a)"
| "f32_div ar a b = NotANumber"

fun f32_exp :: "arithmetic \<Rightarrow> float32 \<Rightarrow> float32" where
  "f32_exp ar (Finite a) = exp32 ar a"
| "f32_exp ar PlusInfinity = PlusInfinity"
| "f32_exp ar MinusInfinity = Finite 0"
| "f32_exp ar NotANumber = NotANumber"

fun f32_log :: "arithmetic \<Rightarrow> float32 \<Rightarrow> float32" where
  "f32_log ar (Finite a) =
     (if a < 0 then NotANumber else if a = 0 then MinusInfinity else log32 ar a)"
| "f32_log ar PlusInfinity = PlusInfinity"
| "f32_log ar MinusInfinity = NotANumber"
| "f32_log ar NotANumber = NotANumber"

text \<open>The numbers of an arithmetic: those that rounding leaves as they are.\<close>

definition number :: "arithmetic \<Rightarrow> real \<Rightarrow> bool" where
  "number ar a \<longleftrightarrow> rounded ar a = Finite a"

text \<open>
  What the properties below use of the platform's arithmetic: 0 and 1 are numbers;
  rounding is symmetric; a result that is not negative is rounded to a number that is
  not negative, or overflows; rounding does not cross a number, from below or from
  above; \<^verbatim>\<open>tf.exp\<close> gives a number that is not negative, or infinity; \<^verbatim>\<open>tf.log\<close> of a
  number in \<open>(0, 1]\<close> gives a number that is not positive, or minus infinity. Two
  arithmetics with these laws are defined below.
\<close>

definition single_precision :: "arithmetic \<Rightarrow> bool" where
  "single_precision ar \<longleftrightarrow>
     rounded ar 0 = Finite 0 \<and> rounded ar 1 = Finite 1 \<and>
     (\<forall>x. rounded ar (- x) = f32_neg (rounded ar x)) \<and>
     (\<forall>x. 0 \<le> x \<longrightarrow>
        rounded ar x = PlusInfinity \<or> (\<exists>y. rounded ar x = Finite y \<and> 0 \<le> y \<and> number ar y)) \<and>
     (\<forall>f x y. number ar f \<and> 0 \<le> f \<and> f \<le> x \<and> rounded ar x = Finite y \<longrightarrow> f \<le> y) \<and>
     (\<forall>f x. number ar f \<and> 0 \<le> x \<and> x \<le> f \<longrightarrow> (\<exists>y. rounded ar x = Finite y \<and> y \<le> f)) \<and>
     (\<forall>x. exp32 ar x = PlusInfinity \<or> (\<exists>y. exp32 ar x = Finite y \<and> 0 \<le> y \<and> number ar y)) \<and>
     (\<forall>p. 0 < p \<and> p \<le> 1 \<longrightarrow>
        log32 ar p = MinusInfinity \<or> (\<exists>l. log32 ar p = Finite l \<and> l \<le> 0 \<and> number ar l))"

subsection \<open>Single-precision tensors\<close>

type_synonym vector32 = "float32 list"

type_synonym matrix32 = "float32 list list"

text \<open>A sum adds its terms one after the other, from the left, starting at zero.\<close>

definition sum32 :: "arithmetic \<Rightarrow> vector32 \<Rightarrow> float32" where
  "sum32 ar xs = foldl (f32_add ar) (Finite 0) xs"

definition dot32 :: "arithmetic \<Rightarrow> vector32 \<Rightarrow> vector32 \<Rightarrow> float32" where
  "dot32 ar u v = sum32 ar (map2 (f32_mul ar) u v)"

definition col32 :: "matrix32 \<Rightarrow> nat \<Rightarrow> vector32" where
  "col32 M k = map (\<lambda>r. r ! k) M"

definition ncols32 :: "matrix32 \<Rightarrow> nat" where
  "ncols32 M = (case M of [] \<Rightarrow> 0 | r # _ \<Rightarrow> length r)"

definition matmul32 :: "arithmetic \<Rightarrow> matrix32 \<Rightarrow> matrix32 \<Rightarrow> matrix32" where
  "matmul32 ar A B = map (\<lambda>a. map (\<lambda>k. dot32 ar a (col32 B k)) [0..<ncols32 B]) A"

definition broadcast_to32 :: "nat \<Rightarrow> matrix32 \<Rightarrow> matrix32" where
  "broadcast_to32 n M = (if length M = n then M else replicate n (hd M))"

definition mul32 :: "arithmetic \<Rightarrow> matrix32 \<Rightarrow> matrix32 \<Rightarrow> error + matrix32" where
  "mul32 ar A B =
     (case broadcast_rows (length A) (length B) of
        None \<Rightarrow> Inl IncompatibleShapes
      | Some n \<Rightarrow> Inr (map2 (map2 (f32_mul ar)) (broadcast_to32 n A) (broadcast_to32 n B)))"

text \<open>
  \<^verbatim>\<open>tf.reduce_mean\<close>: the sum of all entries, divided by their number as a \<^verbatim>\<open>float32\<close>.
  For an empty tensor that is zero by zero.
\<close>

definition reduce_mean32 :: "arithmetic \<Rightarrow> matrix32 \<Rightarrow> float32" where
  "reduce_mean32 ar M =
     (let xs = concat M in f32_div ar (sum32 ar xs) (rounded ar (real (length xs))))"

subsection \<open>The network and the loss in single precision\<close>

record variables32 =
  weights32 :: matrix32
  bias32 :: vector32

definition is_matrix32 :: "nat \<Rightarrow> nat \<Rightarrow> matrix32 \<Rightarrow> bool" where
  "is_matrix32 r c M \<longleftrightarrow> length M = r \<and> (\<forall>row \<in> set M. length row = c)"

definition shape_ok32 :: "variables32 \<Rightarrow> bool" where
  "shape_ok32 s \<longleftrightarrow> is_matrix32 784 10 (weights32 s) \<and> length (bias32 s) = 10"

text \<open>The tensors of \<^verbatim>\<open>elementary_network\<close> and \<^verbatim>\<open>elementary_loss\<close>, operation by operation.\<close>

definition lin32 :: "arithmetic \<Rightarrow> variables32 \<Rightarrow> matrix32 \<Rightarrow> matrix32" where
  "lin32 ar s x = map (\<lambda>row. map2 (f32_add ar) row (bias32 s)) (matmul32 ar x (weights32 s))"

definition elin32 :: "arithmetic \<Rightarrow> variables32 \<Rightarrow> matrix32 \<Rightarrow> matrix32" where
  "elin32 ar s x = map (map (f32_exp ar)) (lin32 ar s x)"

definition Z32 :: "arithmetic \<Rightarrow> variables32 \<Rightarrow> matrix32 \<Rightarrow> matrix32" where
  "Z32 ar s x = map (\<lambda>row. [sum32 ar row]) (elin32 ar s x)"

definition prob32 :: "arithmetic \<Rightarrow> variables32 \<Rightarrow> matrix32 \<Rightarrow> matrix32" where
  "prob32 ar s x =
     map2 (\<lambda>row z. map (\<lambda>e. f32_div ar e (hd z)) row) (elin32 ar s x) (Z32 ar s x)"

definition log_prob32 :: "arithmetic \<Rightarrow> variables32 \<Rightarrow> matrix32 \<Rightarrow> matrix32" where
  "log_prob32 ar s x = map (map (f32_log ar)) (prob32 ar s x)"

text \<open>\<^verbatim>\<open>tf.one_hot\<close> gives the \<^verbatim>\<open>float32\<close> numbers 0 and 1.\<close>

definition determ32 :: "int list \<Rightarrow> matrix32" where
  "determ32 ls = map (map Finite) (determ ls)"

definition loss32 :: "arithmetic \<Rightarrow> variables32 \<Rightarrow> matrix32 \<Rightarrow> int list \<Rightarrow> error + float32" where
  "loss32 ar s x ls =
     (case mul32 ar (determ32 ls) (log_prob32 ar s x) of
        Inl e \<Rightarrow> Inl e
      | Inr p \<Rightarrow> Inr (f32_neg (reduce_mean32 ar p)))"

subsection \<open>A tenth of the mean negative log-likelihood\<close>

text \<open>
  The sum over the samples of the negative log-probability of the true label, divided
  by the number of samples times 10.
\<close>

definition tenth_mean_nll :: "arithmetic \<Rightarrow> variables32 \<Rightarrow> matrix32 \<Rightarrow> int list \<Rightarrow> float32" where
  "tenth_mean_nll ar s x ls =
     f32_div ar
       (sum32 ar (map (\<lambda>n. f32_neg (log_prob32 ar s x ! n ! nat (ls ! n))) [0..<length ls]))
       (rounded ar (real (length ls * 10)))"

subsection \<open>Kinds of single-precision values\<close>

definition is_finite32 :: "float32 \<Rightarrow> bool" where
  "is_finite32 v \<longleftrightarrow> (case v of Finite a \<Rightarrow> True | _ \<Rightarrow> False)"

text \<open>A finite value is a number of the arithmetic.\<close>

definition canonical :: "arithmetic \<Rightarrow> float32 \<Rightarrow> bool" where
  "canonical ar v \<longleftrightarrow> (case v of Finite a \<Rightarrow> number ar a | _ \<Rightarrow> True)"

text \<open>What an entry of \<^verbatim>\<open>elin\<close> can be: a number that is not negative, infinity, or NaN.\<close>

definition exp_value :: "arithmetic \<Rightarrow> float32 \<Rightarrow> bool" where
  "exp_value ar v \<longleftrightarrow>
     v = NotANumber \<or> v = PlusInfinity \<or> (\<exists>a. v = Finite a \<and> 0 \<le> a \<and> number ar a)"

text \<open>What an entry of \<^verbatim>\<open>prob\<close> can be: a number between 0 and 1, or NaN.\<close>

definition prob_value :: "float32 \<Rightarrow> bool" where
  "prob_value v \<longleftrightarrow> v = NotANumber \<or> (\<exists>p. v = Finite p \<and> 0 \<le> p \<and> p \<le> 1)"

text \<open>
  What an entry of \<^verbatim>\<open>log_prob\<close> can be: a number that is not positive, minus infinity,
  or NaN.
\<close>

definition log_value :: "arithmetic \<Rightarrow> float32 \<Rightarrow> bool" where
  "log_value ar v \<longleftrightarrow>
     v = NotANumber \<or> v = MinusInfinity \<or> (\<exists>l. v = Finite l \<and> l \<le> 0 \<and> number ar l)"


subsection \<open>Rounding to nearest\<close>

text \<open>
  IEEE 754 binary32. The exponent of the binade of \<open>x\<close>, not below that of the subnormal
  numbers, and the distance of neighbouring single-precision numbers in that binade
  (24 significant bits).
\<close>

definition exponent :: "real \<Rightarrow> int" where
  "exponent x = (if \<bar>x\<bar> < 2 powr (- 126) then - 126 else \<lfloor>log 2 \<bar>x\<bar>\<rfloor>)"

definition ulp :: "real \<Rightarrow> real" where
  "ulp x = 2 powr (of_int (exponent x) - 23)"

text \<open>The nearest integer; of two nearest integers, the even one.\<close>

definition round_half_even :: "real \<Rightarrow> int" where
  "round_half_even x =
     (let n = \<lfloor>x\<rfloor>; r = x - of_int n in
      if r < 1 / 2 then n else if 1 / 2 < r then n + 1 else if even n then n else n + 1)"

text \<open>
  Rounding to nearest, ties to even: \<open>nearest x\<close> is the multiple of \<open>ulp x\<close> nearest to
  \<open>x\<close>; a result of magnitude \<open>2 ^ 128\<close> or more overflows to an infinity.
\<close>

definition nearest :: "real \<Rightarrow> real" where
  "nearest x = of_int (round_half_even (x / ulp x)) * ulp x"

definition round32 :: "real \<Rightarrow> float32" where
  "round32 x =
     (if 2 powr 128 \<le> \<bar>nearest x\<bar> then (if 0 < x then PlusInfinity else MinusInfinity)
      else Finite (nearest x))"

text \<open>The numbers that binary32 holds exactly.\<close>

definition representable :: "real \<Rightarrow> bool" where
  "representable f \<longleftrightarrow> (\<exists>m::int. f = of_int m * ulp f) \<and> \<bar>f\<bar> < 2 powr 128"

text \<open>The same rounding on a processor that flushes subnormal results to zero.\<close>

definition flush32 :: "real \<Rightarrow> float32" where
  "flush32 x =
     (case round32 x of
        Finite y \<Rightarrow> if \<bar>y\<bar> < 2 powr (- 126) then Finite 0 else Finite y
      | v \<Rightarrow> v)"

text \<open>
  Two arithmetics: binary32 with subnormal numbers, and binary32 with subnormal results
  flushed to zero, \<^verbatim>\<open>tf.exp\<close> and \<^verbatim>\<open>tf.log\<close> being rounded correctly in both.
\<close>

definition binary32 :: arithmetic where
  "binary32 = \<lparr>rounded = round32, exp32 = (\<lambda>a. round32 (exp a)), log32 = (\<lambda>a. round32 (ln a))\<rparr>"

definition binary32_flushed :: arithmetic where
  "binary32_flushed =
     \<lparr>rounded = flush32, exp32 = (\<lambda>a. flush32 (exp a)), log32 = (\<lambda>a. flush32 (ln a))\<rparr>"

subsection \<open>Concrete single-precision values\<close>

text \<open>
  What the evaluations below use of an arithmetic beyond its laws: the integers up to
  200 and 1/16 are numbers, the exponential of 0 is 1, that of - 200 underflows to 0,
  and the logarithm of a number between 1/16 and 1 is finite.
\<close>

definition small_values :: "arithmetic \<Rightarrow> bool" where
  "small_values ar \<longleftrightarrow>
     (\<forall>m::int. \<bar>m\<bar> \<le> 200 \<longrightarrow> number ar (of_int m)) \<and> number ar (1 / 16) \<and>
     exp32 ar 0 = Finite 1 \<and> exp32 ar (- 200) = Finite 0 \<and>
     (\<forall>p. 1 / 16 \<le> p \<and> p \<le> 1 \<longrightarrow> is_finite32 (log32 ar p))"

text \<open>All parameters zero, and a black image.\<close>

definition zero_variables32 :: variables32 where
  "zero_variables32 =
     \<lparr>weights32 = replicate 784 (replicate 10 (Finite 0)), bias32 = replicate 10 (Finite 0)\<rparr>"

definition black_image :: vector32 where
  "black_image = replicate 784 (Finite 0)"

text \<open>
  An image whose first pixel alone is lit, and parameters that are zero except for the
  weight - 200 from that pixel to class 1: the logit of class 1 is - 200, and its
  exponential underflows.
\<close>

definition unit_image :: vector32 where
  "unit_image = Finite 1 # replicate 783 (Finite 0)"

definition underflow_variables :: variables32 where
  "underflow_variables =
     \<lparr>weights32 =
        map Finite [0, - 200, 0, 0, 0, 0, 0, 0, 0, 0] # replicate 783 (replicate 10 (Finite 0)),
      bias32 = replicate 10 (Finite 0)\<rparr>"

section \<open>Properties\<close>

subsection \<open>Shapes of the tensors\<close>

lemma length_rows_of [simp]: "length (rows_of n d xs) = n"
  by (simp add: rows_of_def)

lemma length_matmul [simp]: "length (matmul A B) = length A"
  by (simp add: matmul_def)

lemma length_lin [simp]: "length (lin s x) = length x"
  by (simp add: lin_def)

lemma length_elin [simp]: "length (elin s x) = length x"
  by (simp add: elin_def)

lemma length_Z [simp]: "length (Z s x) = length x"
  by (simp add: Z_def)

lemma length_prob [simp]: "length (prob s x) = length x"
  by (simp add: prob_def)

lemma length_log_prob [simp]: "length (log_prob s x) = length x"
  by (simp add: log_prob_def)

lemma length_pred [simp]: "length (pred s x) = length x"
  by (simp add: pred_def)

lemma length_determ [simp]: "length (determ ls) = length ls"
  by (simp add: determ_def one_hot_def)

lemma ncols_weights: "shape_ok s \<Longrightarrow> ncols (weights s) = 10"
  by (auto simp: shape_ok_def is_matrix_def ncols_def split: list.splits)

lemma lin_row_length: "shape_ok s \<Longrightarrow> row \<in> set (lin s x) \<Longrightarrow> length row = 10"
  by (auto simp: lin_def matmul_def ncols_weights shape_ok_def)

lemma lin_nth:
  "shape_ok s \<Longrightarrow> n < length x \<Longrightarrow> k < 10 \<Longrightarrow>
   lin s x ! n ! k = dot (x ! n) (col (weights s) k) + bias s ! k"
  by (simp add: lin_def matmul_def ncols_weights shape_ok_def)

lemma elin_row: "n < length x \<Longrightarrow> elin s x ! n = map exp (lin s x ! n)"
  by (simp add: elin_def)

lemma prob_row:
  "n < length x \<Longrightarrow> prob s x ! n = map (\<lambda>e. e / sum_list (elin s x ! n)) (elin s x ! n)"
  by (simp add: prob_def Z_def)

lemma log_prob_row:
  "n < length x \<Longrightarrow>
   log_prob s x ! n = map (\<lambda>v. ln (exp v / sum_list (map exp (lin s x ! n)))) (lin s x ! n)"
  by (simp add: log_prob_def prob_row elin_row)

lemma lin_nth_length: "shape_ok s \<Longrightarrow> n < length x \<Longrightarrow> length (lin s x ! n) = 10"
  by (rule lin_row_length [where x = x]) (auto simp: nth_mem)

lemma log_prob_nth_length:
  "shape_ok s \<Longrightarrow> n < length x \<Longrightarrow> length (log_prob s x ! n) = 10"
  by (simp add: log_prob_row lin_nth_length)

lemma log_prob_row_length:
  "shape_ok s \<Longrightarrow> row \<in> set (log_prob s x) \<Longrightarrow> length row = 10"
  by (auto simp: in_set_conv_nth log_prob_nth_length)

lemma exp_le_sum_list_exp:
  fixes v :: real
  assumes "v \<in> set vs"
  shows "exp v \<le> sum_list (map exp vs)"
  by (rule member_le_sum_list) (use assms in auto)

lemma ln_softmax_nonpos:
  fixes v :: real
  assumes "v \<in> set vs"
  shows "ln (exp v / sum_list (map exp vs)) \<le> 0"
proof -
  have le: "exp v \<le> sum_list (map exp vs)"
    using assms by (rule exp_le_sum_list_exp)
  have pos: "0 < sum_list (map exp vs)"
    using le exp_gt_zero [of v] by linarith
  have "exp v / sum_list (map exp vs) \<le> 1"
    using le pos by simp
  moreover have "0 < exp v / sum_list (map exp vs)"
    using pos by simp
  ultimately show ?thesis
    by simp
qed

lemma log_prob_nonpos:
  assumes "row \<in> set (log_prob s x)" "v \<in> set row"
  shows "v \<le> 0"
proof -
  from assms(1) obtain n where n: "n < length x" "row = log_prob s x ! n"
    by (auto simp: in_set_conv_nth)
  with assms(2) show ?thesis
    by (auto simp: log_prob_row intro: ln_softmax_nonpos)
qed

lemma one_hot_row_sum:
  fixes r :: "real list"
  shows "sum_list (map2 (*) (map (\<lambda>k. if l = int k then 1 else 0) [0..<length r]) r) =
         (if 0 \<le> l \<and> l < int (length r) then r ! nat l else 0)"
proof -
  have "map2 (*) (map (\<lambda>k. if l = int k then 1 else 0) [0..<length r]) r =
        map (\<lambda>k. if l = int k then r ! k else 0) [0..<length r]"
    by (rule nth_equalityI) simp_all
  then have "sum_list (map2 (*) (map (\<lambda>k. if l = int k then 1 else 0) [0..<length r]) r) =
        (\<Sum>k = 0..<length r. if l = int k then r ! k else 0)"
    by (simp add: interv_sum_list_conv_sum_set_nat)
  also have "\<dots> = (\<Sum>k = 0..<length r. if k = nat l \<and> 0 \<le> l then r ! k else 0)"
    by (rule sum.cong) auto
  also have "\<dots> = (if 0 \<le> l \<and> l < int (length r) then r ! nat l else 0)"
    by (cases "0 \<le> l") (auto simp: sum.delta)
  finally show ?thesis .
qed

lemma sum_list_concat: "sum_list (concat (xss :: real list list)) = sum_list (map sum_list xss)"
  by (induction xss) simp_all

lemma length_concat_rows:
  "\<forall>r \<in> set xss. length r = c \<Longrightarrow> length (concat xss) = length xss * c"
  by (induction xss) simp_all

lemma mul_same_length:
  "length A = length B \<Longrightarrow> mul A B = Inr (map2 (map2 (*)) A B)"
  by (simp add: mul_def broadcast_rows_def broadcast_to_def)

lemma determ_nth:
  "n < length ls \<Longrightarrow> determ ls ! n = map (\<lambda>k. if ls ! n = int k then 1 else 0) [0..<10]"
  by (simp add: determ_def one_hot_def)

lemma product_row_sum:
  assumes "shape_ok s" "length ls = length x" "n < length x"
  shows "sum_list (map2 (map2 (*)) (determ ls) (log_prob s x) ! n) =
         (if 0 \<le> ls ! n \<and> ls ! n < 10 then log_prob s x ! n ! nat (ls ! n) else 0)"
proof -
  have len: "length (log_prob s x ! n) = 10"
    using assms by (simp add: log_prob_nth_length)
  have "map2 (map2 (*)) (determ ls) (log_prob s x) ! n =
        map2 (*) (map (\<lambda>k. if ls ! n = int k then 1 else 0) [0..<length (log_prob s x ! n)])
          (log_prob s x ! n)"
    using assms by (simp add: determ_nth len)
  then show ?thesis
    by (simp only: one_hot_row_sum) (simp add: len)
qed

lemma product_row_length:
  assumes "shape_ok s" "length ls = length x"
  shows "\<forall>r \<in> set (map2 (map2 (*)) (determ ls) (log_prob s x)). length r = 10"
proof
  fix r assume "r \<in> set (map2 (map2 (*)) (determ ls) (log_prob s x))"
  then obtain n where n: "n < length x" "r = map2 (map2 (*)) (determ ls) (log_prob s x) ! n"
    using assms by (auto simp: in_set_conv_nth)
  then show "length r = 10"
    using assms by (simp add: determ_nth log_prob_nth_length)
qed

lemma product_sum:
  assumes "shape_ok s" "length ls = length x"
  shows "sum_list (concat (map2 (map2 (*)) (determ ls) (log_prob s x))) =
         (\<Sum>n<length x. if 0 \<le> ls ! n \<and> ls ! n < 10 then log_prob s x ! n ! nat (ls ! n) else 0)"
proof -
  let ?p = "map2 (map2 (*)) (determ ls) (log_prob s x)"
  have "sum_list (concat ?p) = sum_list (map sum_list ?p)"
    by (rule sum_list_concat)
  also have "\<dots> = (\<Sum>n<length ?p. sum_list (?p ! n))"
    by (simp add: sum_list_sum_nth atLeast0LessThan)
  also have "\<dots> = (\<Sum>n<length x. sum_list (?p ! n))"
    using assms by simp
  also have "\<dots> = (\<Sum>n<length x. if 0 \<le> ls ! n \<and> ls ! n < 10 then log_prob s x ! n ! nat (ls ! n) else 0)"
  proof (rule sum.cong)
    fix n assume "n \<in> {..<length x}"
    then have "n < length x" by simp
    then show "sum_list (?p ! n) =
        (if 0 \<le> ls ! n \<and> ls ! n < 10 then log_prob s x ! n ! nat (ls ! n) else 0)"
      by (rule product_row_sum [OF assms])
  qed simp
  finally show ?thesis .
qed

theorem loss_value:
  assumes "shape_ok s" "length ls = length x" "x \<noteq> []"
  shows "loss s x ls =
         Inr (Val (- (\<Sum>n<length x. if 0 \<le> ls ! n \<and> ls ! n < 10 then log_prob s x ! n ! nat (ls ! n) else 0)
                   / real (length x * 10)))"
proof -
  let ?p = "map2 (map2 (*)) (determ ls) (log_prob s x)"
  have len: "length (concat ?p) = length x * 10"
    using assms length_concat_rows [OF product_row_length [OF assms(1,2)]] by simp
  then have "0 < length (concat ?p)"
    using assms(3) by simp
  then have ne: "concat ?p \<noteq> []"
    by (metis length_greater_0_conv)
  have "loss s x ls = Inr (neg (reduce_mean ?p))"
    using assms by (simp add: loss_def mul_same_length)
  also have "reduce_mean ?p = Val (sum_list (concat ?p) / real (length x * 10))"
    using ne len by (simp add: reduce_mean_def Let_def)
  finally show ?thesis
    using assms by (simp add: product_sum)
qed

lemma log_prob_nth_nonpos:
  assumes "shape_ok s" "n < length x" "k < 10"
  shows "log_prob s x ! n ! k \<le> 0"
proof -
  have "log_prob s x ! n \<in> set (log_prob s x)"
    using assms by (simp add: nth_mem)
  moreover have "log_prob s x ! n ! k \<in> set (log_prob s x ! n)"
    using assms by (simp add: nth_mem log_prob_nth_length)
  ultimately show ?thesis
    by (rule log_prob_nonpos)
qed

lemma feed_inp_Some:
  "feed_inp \<lparr>inp_feed = Some a, labels_feed = l\<rparr> =
     (case shape a of
        [n, d] \<Rightarrow> if d = 784 then Inr (rows_of n 784 (data a)) else Inl FeedError
      | _ \<Rightarrow> Inl FeedError)"
  by (simp add: feed_inp_def)

lemma shape_ok_zero_variables: "shape_ok zero_variables"
  by (simp add: shape_ok_def is_matrix_def zero_variables_def)

subsection \<open>Evaluation, shapes and the loop\<close>

lemma np_reshape_784:
  "np_reshape a [784] =
     (if length (data a) mod 784 = 0
      then Inr \<lparr>shape = [length (data a) div 784, 784], data = data a\<rparr>
      else Inl ReshapeError)"
  by (simp add: np_reshape_def Let_def)

lemma evaluate_Pred:
  "evaluate timgs tlabels Pred s =
     (if length (data timgs) mod 784 = 0
      then Inr (np_mean (np_equal (pred s (rows_of (length (data timgs) div 784) 784 (data timgs)))
                  tlabels), s)
      else Inl ReshapeError)"
  by (simp add: evaluate_def np_reshape_784 tensor_eval_def feed_inp_Some)

lemma evaluate_Loss: "evaluate timgs tlabels Loss s = Inr r \<Longrightarrow> False"
  by (auto simp: evaluate_def np_reshape_784 tensor_eval_def feed_inp_Some feed_labels_def
      split: if_splits list.splits sum.splits)

lemma evaluate_Update_ops: "evaluate timgs tlabels Update_ops s = Inr r \<Longrightarrow> False"
  by (auto simp: evaluate_def tensor_eval_def split: sum.splits)

text \<open>
  C4. Whatever the parameters and the held-out images and labels, a call of \<^verbatim>\<open>evaluate\<close>
  that returns leaves the variables as they were, for every tensor it is given; and
  \<^verbatim>\<open>evaluate(pred, inp)\<close> does return a scalar whenever the held-out images reshape to
  rows of 784.
\<close>

theorem evaluate_frame:
  "(length (data timgs) mod 784 = 0 \<longrightarrow> (\<exists>m. evaluate timgs tlabels Pred s = Inr (m, s))) \<and>
   (\<forall>t m s'. evaluate timgs tlabels t s = Inr (m, s') \<longrightarrow> s' = s)"
proof (intro conjI allI impI)
  assume "length (data timgs) mod 784 = 0"
  then show "\<exists>m. evaluate timgs tlabels Pred s = Inr (m, s)"
    by (simp add: evaluate_Pred)
next
  fix t m s'
  assume "evaluate timgs tlabels t s = Inr (m, s')"
  then show "s' = s"
    by (cases t) (auto simp: evaluate_Pred dest: evaluate_Loss evaluate_Update_ops split: if_splits)
qed

lemma count_matches:
  "length r = length l \<Longrightarrow>
   length (filter id (map2 (=) r l)) = card {i. i < length l \<and> r ! i = l ! i}"
  by (simp add: length_filter_conv_card) (rule arg_cong [where f = card], auto)

text \<open>
  C5. For held-out images of \<open>n > 0\<close> samples of 784 pixels and \<open>n\<close> labels,
  \<^verbatim>\<open>evaluate(pred, inp)\<close> returns the number of samples whose predicted class is the
  label, divided by \<open>n\<close>: a value between 0 and 1.
\<close>

theorem evaluate_accuracy:
  assumes "length (data timgs) = length tlabels * 784" and "tlabels \<noteq> []"
  shows "\<exists>v. evaluate timgs tlabels Pred s = Inr (Val v, s) \<and>
           v = real (card {i. i < length tlabels \<and>
                 pred s (rows_of (length tlabels) 784 (data timgs)) ! i = tlabels ! i})
               / real (length tlabels) \<and>
           0 \<le> v \<and> v \<le> 1"
proof -
  let ?r = "pred s (rows_of (length tlabels) 784 (data timgs))"
  let ?c = "card {i. i < length tlabels \<and> ?r ! i = tlabels ! i}"
  have len: "length ?r = length tlabels"
    by simp
  have ne: "map2 (=) ?r tlabels \<noteq> []"
    using assms(2) len by (cases ?r; cases tlabels) auto
  have "evaluate timgs tlabels Pred s = Inr (np_mean (np_equal ?r tlabels), s)"
    using assms(1) by (simp add: evaluate_Pred)
  also have "np_equal ?r tlabels = map2 (=) ?r tlabels"
    by (simp add: np_equal_def)
  also have "np_mean (map2 (=) ?r tlabels) = Val (real ?c / real (length tlabels))"
    using ne count_matches [OF len] by (simp add: np_mean_def)
  finally have ev: "evaluate timgs tlabels Pred s = Inr (Val (real ?c / real (length tlabels)), s)" .
  have "?c \<le> card {i. i < length tlabels}"
    by (rule card_mono) auto
  then have "?c \<le> length tlabels"
    by simp
  then have "real ?c / real (length tlabels) \<le> 1"
    using assms(2) by (simp add: divide_le_eq_1)
  with ev show ?thesis
    by simp
qed

lemma shape_ok_init: "shape_ok (init random_normal)"
  by (simp add: shape_ok_def is_matrix_def init_def)

lemma is_matrix_grad_weights: "is_matrix 784 10 (grad_weights x g)"
  by (auto simp: is_matrix_def grad_weights_def)

lemma length_grad_bias: "length (grad_bias g) = 10"
  by (simp add: grad_bias_def colsums_def)

lemma is_matrix_map2:
  assumes "is_matrix r c A" "is_matrix r c B"
  shows "is_matrix r c (map2 (map2 f) A B)"
  using assms by (auto simp: is_matrix_def set_zip)

lemma update_ops_shape:
  assumes "shape_ok s" "update_ops rate s x ls = Inr s'"
  shows "shape_ok s'"
proof -
  from assms(2) obtain gw gb where g: "gradients s x ls = Inr (gw, gb)"
    and s': "s' = \<lparr>weights = map2 (map2 (\<lambda>v g. v - rate * g)) (weights s) gw,
                     bias = map2 (\<lambda>v g. v - rate * g) (bias s) gb\<rparr>"
    by (auto simp: update_ops_def split: sum.splits)
  from g have "is_matrix 784 10 gw" "length gb = 10"
    by (auto simp: gradients_def Let_def is_matrix_grad_weights length_grad_bias split: sum.splits)
  with assms(1) show ?thesis
    unfolding s' shape_ok_def by (simp add: is_matrix_map2)
qed

lemma session_run_shape:
  assumes "shape_ok s" "session_run t fd s = Inr (r, s')"
  shows "shape_ok s'"
proof (cases t)
  case Update_ops
  with assms show ?thesis
    by (auto split: sum.splits dest: update_ops_shape)
qed (use assms in \<open>auto split: sum.splits\<close>)

lemma evaluate_state: "evaluate timgs tlabels t s = Inr (m, s') \<Longrightarrow> s' = s"
  by (cases t) (auto simp: evaluate_Pred dest: evaluate_Loss evaluate_Update_ops split: if_splits)

lemma loop_body_shape:
  assumes "shape_ok (session st)" "loop_body mnist i st = Inr st'"
  shows "shape_ok (session st')"
proof -
  from assms(2) obtain r s1 where
    u: "session_run Update_ops (batch_feed mnist i) (session st) = Inr (r, s1)"
    by (auto simp: loop_body_def split: sum.splits)
  have s1: "shape_ok s1"
    using assms(1) u by (rule session_run_shape)
  show ?thesis
  proof (cases "i mod 1000 = 0")
    case True
    with assms(2) u obtain m s2 where
      e: "evaluate (test_images mnist) (test_labels mnist) Pred s1 = Inr (m, s2)"
      and st': "session st' = s2"
      by (auto simp: loop_body_def split: sum.splits)
    from e have "s2 = s1"
      by (rule evaluate_state)
    with s1 st' show ?thesis
      by simp
  next
    case False
    with assms(2) u have "session st' = s1"
      by (auto simp: loop_body_def)
    with s1 show ?thesis
      by simp
  qed
qed

lemma training_loop_shape:
  "shape_ok (session st) \<Longrightarrow> training_loop mnist n i st = Inr st' \<Longrightarrow> shape_ok (session st')"
proof (induction mnist n i st rule: training_loop.induct)
  case (1 mnist n i st)
  show ?case
  proof (cases "i < n")
    case True
    with "1.prems"(2) obtain st1 where b: "loop_body mnist i st = Inr st1"
      and r: "training_loop mnist n (Suc i) st1 = Inr st'"
      by (subst (asm) training_loop.simps) (auto split: sum.splits)
    from "1.prems"(1) b have "shape_ok (session st1)"
      by (rule loop_body_shape)
    with "1.IH" True b r show ?thesis
      by simp
  next
    case False
    with "1.prems" show ?thesis
      by (subst (asm) training_loop.simps) simp
  qed
qed

text \<open>
  C7. The initial weights have shape \<open>(784, 10)\<close> and the initial bias shape \<open>(10)\<close>;
  every run of the session, the optimizer step among them, and every run of the training
  loop keep these shapes.
\<close>

theorem shapes_fixed:
  "shape_ok (init random_normal) \<and>
   (shape_ok s \<longrightarrow> session_run t fd s = Inr (r, s') \<longrightarrow> shape_ok s') \<and>
   (shape_ok (session st) \<longrightarrow> training_loop mnist n i st = Inr st' \<longrightarrow> shape_ok (session st'))"
  using shape_ok_init session_run_shape training_loop_shape by blast

lemma gradients_succeed:
  "length x = length ls \<Longrightarrow> \<exists>gw gb. gradients s x ls = Inr (gw, gb)"
  by (simp add: gradients_def grad_log_prob_def broadcast_rows_def Let_def)

lemma update_ops_succeed:
  "length x = length ls \<Longrightarrow> \<exists>s'. update_ops rate s x ls = Inr s'"
  using gradients_succeed [of x ls s] by (auto simp: update_ops_def)

lemma session_run_update_succeed:
  assumes "shape a = [length ls, 784]"
  shows "\<exists>s'. session_run Update_ops \<lparr>inp_feed = Some a, labels_feed = Some ls\<rparr> s = Inr (Updated, s')"
proof -
  obtain s' where "update_ops learning_rate s (rows_of (length ls) 784 (data a)) ls = Inr s'"
    using update_ops_succeed [of "rows_of (length ls) 784 (data a)" ls] by auto
  then show ?thesis
    using assms by (simp add: feed_inp_Some feed_labels_def)
qed

lemma batch_update_succeed:
  assumes "wf_batch (next_batch mnist i)"
  shows "\<exists>s'. session_run Update_ops (batch_feed mnist i) s = Inr (Updated, s')"
proof -
  obtain a ls where b: "next_batch mnist i = (a, ls)"
    by (cases "next_batch mnist i")
  with assms have "shape a = [length ls, 784]"
    by (simp add: wf_batch_def)
  then show ?thesis
    using session_run_update_succeed [of a ls s] b by (simp add: batch_feed_def)
qed

lemma loop_body_succeed:
  assumes "wf_batch (next_batch mnist i)" "length (data (test_images mnist)) mod 784 = 0"
  shows "\<exists>st' r. loop_body mnist i st = Inr st' \<and>
           session_run Update_ops (batch_feed mnist i) (session st) = Inr (r, session st')"
proof -
  obtain s' where u: "session_run Update_ops (batch_feed mnist i) (session st) = Inr (Updated, s')"
    using batch_update_succeed [OF assms(1)] by blast
  show ?thesis
    using u assms(2) by (simp add: loop_body_def evaluate_Pred)
qed

lemma training_loop_steps:
  assumes "\<forall>j. i \<le> j \<and> j < n \<longrightarrow> wf_batch (next_batch mnist j)"
    and "length (data (test_images mnist)) mod 784 = 0"
  shows "\<exists>st'. training_loop mnist n i st = Inr st' \<and>
           optimizer_steps mnist i (n - i) (session st) = Inr (session st')"
  using assms
proof (induction mnist n i st rule: training_loop.induct)
  case (1 mnist n i st)
  show ?case
  proof (cases "i < n")
    case True
    then have "wf_batch (next_batch mnist i)"
      using "1.prems"(1) by simp
    then obtain st1 r where b: "loop_body mnist i st = Inr st1"
      and u: "session_run Update_ops (batch_feed mnist i) (session st) = Inr (r, session st1)"
      using loop_body_succeed [OF _ "1.prems"(2), of i st] by blast
    have "\<exists>st'. training_loop mnist n (Suc i) st1 = Inr st' \<and>
           optimizer_steps mnist (Suc i) (n - Suc i) (session st1) = Inr (session st')"
      using "1.IH" [OF True b] "1.prems" by simp
    then obtain st' where t: "training_loop mnist n (Suc i) st1 = Inr st'"
      and o: "optimizer_steps mnist (Suc i) (n - Suc i) (session st1) = Inr (session st')"
      by blast
    have "training_loop mnist n i st = Inr st'"
      using True b t by (subst training_loop.simps) simp
    moreover have "n - i = Suc (n - Suc i)"
      using True by simp
    then have "optimizer_steps mnist i (n - i) (session st) = Inr (session st')"
      using u o by simp
    ultimately show ?thesis
      by blast
  next
    case False
    then show ?thesis
      by (subst training_loop.simps) simp
  qed
qed

text \<open>
  C3. When the data source returns well-formed batches and the held-out images reshape
  to rows of 784, the training loop for \<open>n\<close> iterations terminates normally, and its final
  variables are those of exactly \<open>n\<close> optimizer steps, on the batches of the iterations
  \<open>0, ..., n - 1\<close> in this order: no step is skipped and none is added.
\<close>

theorem training_loop_runs_n_steps:
  assumes "\<forall>i<n. wf_batch (next_batch mnist i)"
    and "length (data (test_images mnist)) mod 784 = 0"
  shows "\<exists>st'. training_loop mnist n 0 st = Inr st' \<and>
           optimizer_steps mnist 0 n (session st) = Inr (session st')"
  using training_loop_steps [of 0 n mnist st] assms by simp

lemma dot_replicate_zero: "dot a (replicate n 0) = 0"
proof -
  have "\<forall>v \<in> set (map2 (*) a (replicate n 0)). v = 0"
    by (auto simp: set_zip)
  then have "map2 (*) a (replicate n 0) = replicate (length (map2 (*) a (replicate n 0))) 0"
    by (metis replicate_length_same)
  then have "sum_list (map2 (*) a (replicate n 0)) = 0"
    by (metis sum_list_replicate mult_zero_right)
  then show ?thesis
    by (simp add: dot_def)
qed

lemma lin_zero_variables:
  assumes "n < length x"
  shows "lin zero_variables x ! n = replicate 10 0"
proof (rule nth_equalityI)
  show "length (lin zero_variables x ! n) = length (replicate 10 (0::real))"
    using assms by (simp add: lin_nth_length shape_ok_zero_variables)
next
  fix k assume "k < length (lin zero_variables x ! n)"
  then have k: "k < 10"
    using assms by (simp add: lin_nth_length shape_ok_zero_variables)
  have "col (weights zero_variables) k = replicate 784 0"
    using k by (simp add: col_def zero_variables_def)
  then show "lin zero_variables x ! n ! k = replicate 10 0 ! k"
    using assms k
    by (simp add: lin_nth shape_ok_zero_variables dot_replicate_zero) (simp add: zero_variables_def)
qed

lemma argmax_aux_replicate: "argmax_aux b c i (replicate n c) = b"
  by (induction n arbitrary: i) simp_all

lemma argmax_replicate: "argmax (replicate n c) = 0"
  by (cases n) (simp_all add: argmax_def argmax_aux_replicate)

lemma pred_zero_variables: "pred zero_variables x = replicate (length x) 0"
proof (rule nth_equalityI)
  show "length (pred zero_variables x) = length (replicate (length x) (0::int))"
    by simp
next
  fix n assume "n < length (pred zero_variables x)"
  then have n: "n < length x"
    by simp
  have "log_prob zero_variables x ! n =
        replicate 10 (ln (exp 0 / sum_list (map exp (replicate 10 (0::real)))))"
    using n by (simp add: log_prob_row lin_zero_variables)
  then have "argmax (log_prob zero_variables x ! n) = 0"
    by (simp only: argmax_replicate)
  then show "pred zero_variables x ! n = replicate (length x) 0 ! n"
    using n by (simp add: pred_def)
qed

lemma elementary_network_notebook: "elementary_network 784 (784, 10) 10 = Inr 10"
  by (simp add: elementary_network_def)

lemma feed_mismatch:
  assumes "\<forall>n. shape a \<noteq> [n, 784]"
  shows "feed_inp \<lparr>inp_feed = Some a, labels_feed = l\<rparr> = Inl FeedError"
  using assms by (auto simp: feed_inp_Some split: list.splits)

text \<open>
  C6, as the code has it. Building the network for a placeholder whose declared sample
  dimension differs from the number of rows of the weights fails with \<open>ShapeMismatch\<close>. A
  fed array that does not have the shape \<open>(n, 784)\<close> of the placeholder is rejected by the
  run of the session, with \<open>FeedError\<close>, and is not reshaped. \<^verbatim>\<open>evaluate\<close> reshapes the
  held-out images to rows of 784 whatever their shape is, and fails (with the error of
  \<^verbatim>\<open>np.reshape\<close>) exactly when their size is not a multiple of 784.
\<close>

theorem shape_mismatch_handling:
  "(d \<noteq> r \<longrightarrow> elementary_network d (r, c) k = Inl ShapeMismatch) \<and>
   ((\<forall>n. shape a \<noteq> [n, 784]) \<longrightarrow>
      session_run t \<lparr>inp_feed = Some a, labels_feed = l\<rparr> s = Inl FeedError) \<and>
   (length (data timgs) mod 784 = 0 \<longrightarrow>
      (\<exists>m. evaluate timgs tlabels Pred s = Inr (m, s))) \<and>
   (length (data timgs) mod 784 \<noteq> 0 \<longrightarrow> evaluate timgs tlabels t s = Inl ReshapeError)"
proof (intro conjI impI)
  assume "d \<noteq> r"
  then show "elementary_network d (r, c) k = Inl ShapeMismatch"
    by (simp add: elementary_network_def)
next
  assume "\<forall>n. shape a \<noteq> [n, 784]"
  then have "feed_inp \<lparr>inp_feed = Some a, labels_feed = l\<rparr> = Inl FeedError"
    by (rule feed_mismatch)
  then show "session_run t \<lparr>inp_feed = Some a, labels_feed = l\<rparr> s = Inl FeedError"
    by (cases t) simp_all
next
  assume "length (data timgs) mod 784 = 0"
  then show "\<exists>m. evaluate timgs tlabels Pred s = Inr (m, s)"
    by (simp add: evaluate_Pred)
next
  assume "length (data timgs) mod 784 \<noteq> 0"
  then show "evaluate timgs tlabels t s = Inl ReshapeError"
    by (simp add: evaluate_def np_reshape_784)
qed

theorem evaluate_frame_witness:
  "length (data (zero_images [1, 28, 28, 1])) mod 784 = 0 \<and>
   (\<exists>m. evaluate (zero_images [1, 28, 28, 1]) [0] Pred zero_variables = Inr (m, zero_variables))"
  using evaluate_frame [of "zero_images [1, 28, 28, 1]" "[0]" zero_variables]
  by (simp add: zero_images_def)

theorem evaluate_accuracy_witness:
  "length (data (zero_images [2, 28, 28, 1])) = length [0::int, 1] * 784 \<and> [0::int, 1] \<noteq> [] \<and>
   (\<exists>v. evaluate (zero_images [2, 28, 28, 1]) [0, 1] Pred zero_variables = Inr (Val v, zero_variables) \<and>
      v = real (card {i. i < length [0::int, 1] \<and>
                pred zero_variables (rows_of (length [0::int, 1]) 784 (data (zero_images [2, 28, 28, 1]))) ! i
                  = [0, 1] ! i})
          / real (length [0::int, 1]) \<and>
      0 \<le> v \<and> v \<le> 1)"
proof -
  have h: "length (data (zero_images [2, 28, 28, 1])) = length [0::int, 1] * 784"
    by (simp add: zero_images_def)
  show ?thesis
    using evaluate_accuracy [OF h, of zero_variables] h by simp
qed

lemma wf_zero_batch: "wf_batch (next_batch zero_dataset i)"
  by (simp add: zero_dataset_def wf_batch_def wf_ndarray_def zero_images_def)

theorem shapes_fixed_witness:
  "shape_ok zero_variables \<and>
   (\<exists>s'. session_run Update_ops (batch_feed zero_dataset 0) zero_variables = Inr (Updated, s') \<and>
      shape_ok s')"
proof -
  have "wf_batch (next_batch zero_dataset 0)"
    by (rule wf_zero_batch)
  then obtain s' where
    u: "session_run Update_ops (batch_feed zero_dataset 0) zero_variables = Inr (Updated, s')"
    using batch_update_succeed by blast
  have "shape_ok s'"
    using shapes_fixed [where s = zero_variables and t = Update_ops
        and fd = "batch_feed zero_dataset 0" and r = Updated and s' = s']
      shape_ok_zero_variables u by blast
  with u shape_ok_zero_variables show ?thesis
    by blast
qed

theorem training_loop_runs_n_steps_witness:
  "wf_batch (next_batch zero_dataset 0) \<and> wf_batch (next_batch zero_dataset 1) \<and>
   length (data (test_images zero_dataset)) mod 784 = 0 \<and>
   (\<exists>st'. training_loop zero_dataset 2 0 \<lparr>session = zero_variables, printed = []\<rparr> = Inr st' \<and>
      optimizer_steps zero_dataset 0 2 (session \<lparr>session = zero_variables, printed = []\<rparr>)
        = Inr (session st'))"
proof -
  have b: "\<forall>i<2. wf_batch (next_batch zero_dataset i)"
    by (simp only: wf_zero_batch) simp
  have t: "length (data (test_images zero_dataset)) mod 784 = 0"
    by (simp add: zero_dataset_def zero_images_def)
  show ?thesis
    using training_loop_runs_n_steps [OF b t, of "\<lparr>session = zero_variables, printed = []\<rparr>"] b t
    by simp
qed

theorem shape_mismatch_handling_witness:
  "(500::nat) \<noteq> 784 \<and> elementary_network 500 (784, 10) 10 = Inl ShapeMismatch \<and>
   session_run Pred \<lparr>inp_feed = Some (zero_images [1, 392]), labels_feed = Some [0]\<rparr>
     zero_variables = Inl FeedError \<and>
   length (data (zero_images [1, 28, 28, 1])) mod 784 = 0 \<and>
   (\<exists>m. evaluate (zero_images [1, 28, 28, 1]) [0] Pred zero_variables = Inr (m, zero_variables)) \<and>
   length (data (zero_images [1, 500])) mod 784 \<noteq> 0 \<and>
   evaluate (zero_images [1, 500]) [0] Pred zero_variables = Inl ReshapeError"
  using shape_mismatch_handling [where d = 500 and r = 784 and c = 10 and k = 10
      and a = "zero_images [1, 392]" and t = Pred and l = "Some [0]" and s = zero_variables
      and timgs = "zero_images [1, 28, 28, 1]" and tlabels = "[0]"]
    shape_mismatch_handling [where d = 500 and r = 784 and c = 10 and k = 10
      and a = "zero_images [1, 392]" and t = Pred and l = "Some [0]" and s = zero_variables
      and timgs = "zero_images [1, 500]" and tlabels = "[0]"]
  by (simp add: zero_images_def)

text \<open>
  C6 as stated fails. The notebook's network is built without error; a sample of 392
  pixels fed to it is rejected when the session runs, not when the network is built; and
  \<^verbatim>\<open>evaluate\<close> merges two held-out samples of 392 pixels into one row of 784 and returns
  an accuracy.
\<close>

theorem shape_mismatch_counterexample:
  "elementary_network 784 (784, 10) 10 = Inr 10 \<and>
   session_run Update_ops \<lparr>inp_feed = Some (zero_images [1, 392]), labels_feed = Some [0]\<rparr>
     zero_variables = Inl FeedError \<and>
   evaluate (zero_images [2, 392]) [0, 0] Pred zero_variables = Inr (Val 1, zero_variables)"
  by (simp add: elementary_network_def feed_inp_Some evaluate_Pred zero_images_def
      pred_zero_variables np_equal_def np_mean_def)


subsection \<open>The gradient and the optimizer step, in exact arithmetic\<close>

lemma sum_list_exp_pos:
  fixes vs :: "real list"
  assumes "vs \<noteq> []"
  shows "0 < sum_list (map exp vs)"
proof -
  from assms obtain v where "v \<in> set vs"
    by (cases vs) auto
  then have "exp v \<le> sum_list (map exp vs)"
    by (rule exp_le_sum_list_exp)
  then show ?thesis
    using exp_gt_zero [of v] by linarith
qed

lemma sum_list_as_sum: "sum_list (xs :: real list) = (\<Sum>j<length xs. xs ! j)"
  by (simp add: sum_list_sum_nth atLeast0LessThan)

lemma elin_nth:
  "shape_ok s \<Longrightarrow> n < length x \<Longrightarrow> k < 10 \<Longrightarrow> elin s x ! n ! k = exp (lin s x ! n ! k)"
  by (simp add: elin_row lin_nth_length)

lemma elin_nth_length: "shape_ok s \<Longrightarrow> n < length x \<Longrightarrow> length (elin s x ! n) = 10"
  by (simp add: elin_row lin_nth_length)

lemma Z_nth: "n < length x \<Longrightarrow> Z s x ! n = [sum_list (elin s x ! n)]"
  by (simp add: Z_def)

lemma sum_elin:
  assumes "shape_ok s" "n < length x"
  shows "sum_list (elin s x ! n) = (\<Sum>j<10. exp (lin s x ! n ! j))"
  using assms by (simp add: sum_list_as_sum elin_nth_length elin_nth)

lemma sum_elin_pos:
  assumes "shape_ok s" "n < length x"
  shows "0 < (\<Sum>j<10. exp (lin s x ! n ! j))"
proof (rule sum_pos)
  show "{..<10::nat} \<noteq> {}"
    by (simp add: lessThan_empty_iff)
qed simp_all

lemma prob_nth:
  assumes "shape_ok s" "n < length x" "k < 10"
  shows "prob s x ! n ! k = exp (lin s x ! n ! k) / (\<Sum>j<10. exp (lin s x ! n ! j))"
  using assms by (simp add: prob_row elin_nth_length elin_nth sum_elin)

lemma prob_nth_length: "shape_ok s \<Longrightarrow> n < length x \<Longrightarrow> length (prob s x ! n) = 10"
  by (simp add: prob_row elin_nth_length)

lemma log_prob_nth:
  assumes "shape_ok s" "n < length x" "k < 10"
  shows "log_prob s x ! n ! k = lin s x ! n ! k - ln (\<Sum>j<10. exp (lin s x ! n ! j))"
proof -
  have "log_prob s x ! n ! k = ln (prob s x ! n ! k)"
    using assms by (simp add: log_prob_def prob_nth_length)
  also have "\<dots> = ln (exp (lin s x ! n ! k) / (\<Sum>j<10. exp (lin s x ! n ! j)))"
    using assms by (simp add: prob_nth)
  also have "\<dots> = lin s x ! n ! k - ln (\<Sum>j<10. exp (lin s x ! n ! j))"
    using sum_elin_pos [OF assms(1,2)] by (simp add: ln_div)
  finally show ?thesis .
qed

lemma sum_list_map2:
  fixes f :: "real \<Rightarrow> real \<Rightarrow> real"
  assumes "length u = m" "length v = m"
  shows "sum_list (map2 f u v) = (\<Sum>j<m. f (u ! j) (v ! j))"
  using assms by (simp add: sum_list_as_sum)

lemma length_grad_prob [simp]: "length (grad_prob s x g) = min (length g) (length x)"
  by (simp add: grad_prob_def)

lemma length_grad_Z [simp]: "length (grad_Z s x g) = min (length g) (length x)"
  by (simp add: grad_Z_def)

lemma length_grad_elin [simp]: "length (grad_elin s x g) = min (length g) (length x)"
  by (simp add: grad_elin_def)

lemma length_grad_lin [simp]: "length (grad_lin s x g) = min (length g) (length x)"
  by (simp add: grad_lin_def)

lemma grad_prob_row:
  "n < length g \<Longrightarrow> n < length x \<Longrightarrow> grad_prob s x g ! n = map2 (/) (g ! n) (prob s x ! n)"
  by (simp add: grad_prob_def)

lemma grad_Z_row:
  "n < length g \<Longrightarrow> n < length x \<Longrightarrow>
   grad_Z s x g ! n =
     [sum_list (map2 (\<lambda>gv e. gv * (- e / (sum_list (elin s x ! n))\<^sup>2)) (g ! n) (elin s x ! n))]"
  by (simp add: grad_Z_def Z_nth)

lemma grad_elin_row:
  "n < length g \<Longrightarrow> n < length x \<Longrightarrow>
   grad_elin s x g ! n =
     map (\<lambda>gv. gv / sum_list (elin s x ! n) + hd (grad_Z s x g ! n)) (g ! n)"
  by (simp add: grad_elin_def Z_nth)

lemma grad_lin_row:
  "n < length g \<Longrightarrow> n < length x \<Longrightarrow> grad_lin s x g ! n = map2 (*) (g ! n) (elin s x ! n)"
  by (simp add: grad_lin_def)

lemma grad_log_prob_eq:
  "length ls = length x \<Longrightarrow>
   grad_log_prob s x ls = Inr (map2 (map2 (*)) (grad_p (length x)) (determ ls))"
  by (simp add: grad_log_prob_def broadcast_rows_def broadcast_to_def unbroadcast_def grad_p_def)

lemma grad_log_prob_row:
  assumes "length ls = length x" "n < length x"
  shows "map2 (map2 (*)) (grad_p (length x)) (determ ls) ! n =
         map (\<lambda>k. (- 1 / real (length x * 10)) * (if ls ! n = int k then 1 else 0)) [0..<10]"
  using assms by (intro nth_equalityI) (simp_all add: grad_p_def determ_nth)

text \<open>The gradient that arrives at \<open>lin\<close>: softmax minus one-hot, over the size.\<close>

lemma backprop_to_lin:
  assumes "shape_ok s" "length ls = length x" "n < length x" "k < 10"
  defines "g \<equiv> map2 (map2 (*)) (grad_p (length x)) (determ ls)"
  shows "grad_lin s x (grad_elin s x (grad_prob s x g)) ! n ! k =
         (prob s x ! n ! k * (\<Sum>j<10. if ls ! n = int j then 1 else 0)
            - (if ls ! n = int k then 1 else 0)) / real (length x * 10)"
proof -
  let ?c = "- 1 / real (length x * 10)"
  let ?D = "\<lambda>j. if ls ! n = int j then 1 else (0::real)"
  let ?E = "\<lambda>j. exp (lin s x ! n ! j)"
  let ?S = "\<Sum>j<10. ?E j"
  have S: "0 < ?S"
    using assms(1,3) by (rule sum_elin_pos)
  have lg: "length g = length x"
    using assms(2) by (simp add: g_def grad_p_def)
  have g0: "g ! n = map (\<lambda>j. ?c * ?D j) [0..<10]"
    unfolding g_def using assms(2,3) by (rule grad_log_prob_row)
  have lp: "length (prob s x ! n) = 10" and le: "length (elin s x ! n) = 10"
    using assms(1,3) by (simp_all add: prob_nth_length elin_nth_length)
  have P: "\<And>j. j < 10 \<Longrightarrow> prob s x ! n ! j = ?E j / ?S"
    using assms(1,3) by (simp add: prob_nth)
  have E: "\<And>j. j < 10 \<Longrightarrow> elin s x ! n ! j = ?E j"
    using assms(1,3) by (simp add: elin_nth)
  have Ssum: "sum_list (elin s x ! n) = ?S"
    using assms(1,3) by (rule sum_elin)
  have g1: "grad_prob s x g ! n = map (\<lambda>j. ?c * ?D j / (?E j / ?S)) [0..<10]"
    using assms(3) lg lp by (intro nth_equalityI) (simp_all add: grad_prob_row g0 P)
  have gz: "hd (grad_Z s x (grad_prob s x g) ! n) = (\<Sum>j<10. ?D j) / (real (length x * 10) * ?S)"
  proof -
    have "hd (grad_Z s x (grad_prob s x g) ! n) =
          (\<Sum>j<10. (?c * ?D j / (?E j / ?S)) * (- ?E j / ?S\<^sup>2))"
      using assms(3) lg le by (simp add: grad_Z_row g1 Ssum sum_list_map2 [where m = 10] E)
    also have "\<dots> = (\<Sum>j<10. ?D j / (real (length x * 10) * ?S))"
    proof (rule sum.cong)
      fix j :: nat
      have "0 < ?E j" by simp
      then show "(?c * ?D j / (?E j / ?S)) * (- ?E j / ?S\<^sup>2) = ?D j / (real (length x * 10) * ?S)"
        using S by (simp add: power2_eq_square field_simps)
    qed simp
    also have "\<dots> = (\<Sum>j<10. ?D j) / (real (length x * 10) * ?S)"
      by (simp only: sum_divide_distrib)
    finally show ?thesis .
  qed
  have "grad_lin s x (grad_elin s x (grad_prob s x g)) ! n ! k =
        (?c * ?D k / (?E k / ?S) / ?S + (\<Sum>j<10. ?D j) / (real (length x * 10) * ?S)) * ?E k"
    using assms(3,4) lg le
    by (simp add: grad_lin_row grad_elin_row g1 Ssum gz E)
  also have "\<dots> = (?E k / ?S * (\<Sum>j<10. ?D j) - ?D k) / real (length x * 10)"
  proof -
    have "0 < ?E k" by simp
    moreover have "0 < real (length x * 10)"
      using assms(3) by (cases x) simp_all
    ultimately show ?thesis
      using S by (simp add: field_simps)
  qed
  finally show ?thesis
    using assms(4) by (simp add: P)
qed

lemma length_col [simp]: "length (col M k) = length M"
  by (simp add: col_def)

lemma col_nth: "n < length M \<Longrightarrow> col M k ! n = M ! n ! k"
  by (simp add: col_def)

lemma dot_as_sum: "length u = m \<Longrightarrow> length v = m \<Longrightarrow> dot u v = (\<Sum>j<m. u ! j * v ! j)"
  by (simp add: dot_def sum_list_map2)

lemma dot_update:
  assumes "i < length v" "length a = length v"
  shows "dot a (v[i := y]) = dot a v + a ! i * (y - v ! i)"
proof -
  have "dot a (v[i := y]) = (\<Sum>j<length v. a ! j * v[i := y] ! j)"
    using assms by (simp add: dot_as_sum)
  also have "\<dots> = (\<Sum>j<length v. a ! j * v ! j + (if j = i then a ! i * (y - v ! i) else 0))"
    by (rule sum.cong) (auto simp: nth_list_update algebra_simps)
  also have "\<dots> = (\<Sum>j<length v. a ! j * v ! j) + a ! i * (y - v ! i)"
    using assms(1) by (simp add: sum.distrib)
  also have "(\<Sum>j<length v. a ! j * v ! j) = dot a v"
    using assms by (simp add: dot_as_sum)
  finally show ?thesis .
qed

lemma shape_ok_update_weights:
  assumes "shape_ok s" "i < 784" "k < 10"
  shows "shape_ok (s\<lparr>weights := (weights s)[i := (weights s ! i)[k := t]]\<rparr>)"
proof -
  have "length ((weights s ! i)[k := t]) = 10"
    using assms by (simp add: shape_ok_def is_matrix_def)
  then show ?thesis
    using assms(1) by (auto simp: shape_ok_def is_matrix_def dest!: set_update_subset_insert [THEN subsetD])
qed

lemma shape_ok_update_bias:
  "shape_ok s \<Longrightarrow> shape_ok (s\<lparr>bias := (bias s)[k := t]\<rparr>)"
  by (simp add: shape_ok_def)

lemma lin_update_weights:
  assumes "shape_ok s" "i < 784" "k < 10" "n < length x" "length (x ! n) = 784" "j < 10"
  shows "lin (s\<lparr>weights := (weights s)[i := (weights s ! i)[k := t]]\<rparr>) x ! n ! j =
         lin s x ! n ! j + (if j = k then 1 else 0) * (x ! n ! i) * (t - weights s ! i ! k)"
proof -
  let ?W = "weights s"
  let ?s = "s\<lparr>weights := ?W[i := (?W ! i)[k := t]]\<rparr>"
  have lW: "length ?W = 784" and lr: "length (?W ! i) = 10"
    using assms(1,2) by (simp_all add: shape_ok_def is_matrix_def)
  have c: "col (?W[i := (?W ! i)[k := t]]) j = (col ?W j)[i := (if j = k then t else ?W ! i ! j)]"
    using assms(3,6) lr by (simp add: col_def map_update nth_list_update)
  have "lin ?s x ! n ! j = dot (x ! n) (col (?W[i := (?W ! i)[k := t]]) j) + bias s ! j"
    using lin_nth [OF shape_ok_update_weights [OF assms(1-3)] assms(4,6), of t] by simp
  also have "dot (x ! n) (col (?W[i := (?W ! i)[k := t]]) j) =
        dot (x ! n) (col ?W j) + x ! n ! i * ((if j = k then t else ?W ! i ! j) - col ?W j ! i)"
    unfolding c using assms(2,5) lW by (intro dot_update) simp_all
  also have "col ?W j ! i = ?W ! i ! j"
    using assms(2) lW by (simp add: col_nth)
  finally show ?thesis
    using lin_nth [OF assms(1,4,6)] by simp
qed

lemma lin_update_bias:
  assumes "shape_ok s" "k < 10" "n < length x" "j < 10"
  shows "lin (s\<lparr>bias := (bias s)[k := t]\<rparr>) x ! n ! j =
         lin s x ! n ! j + (if j = k then 1 else 0) * 1 * (t - bias s ! k)"
proof -
  have "length (bias s) = 10"
    using assms(1) by (simp add: shape_ok_def)
  then show ?thesis
    using lin_nth [OF shape_ok_update_bias [OF assms(1)] assms(3,4), of k t]
      lin_nth [OF assms(1,3,4)] assms(2,4)
    by (simp add: nth_list_update)
qed

lemma hot_sum_nth:
  fixes f :: "nat \<Rightarrow> real"
  shows "(\<Sum>j<10. (if l = int j then 1 else 0) * f j) = (if 0 \<le> l \<and> l < 10 then f (nat l) else 0)"
proof -
  have "(\<Sum>j<10. (if l = int j then 1 else 0) * f j) = (\<Sum>j<10. if j = nat l \<and> 0 \<le> l then f j else 0)"
    by (rule sum.cong) auto
  also have "\<dots> = (if 0 \<le> l \<and> l < 10 then f (nat l) else 0)"
    by (cases "0 \<le> l") (auto simp: sum.delta)
  finally show ?thesis .
qed

lemma hot_sum:
  "(\<Sum>j<10. (if l = int j then 1 else 0)) = (if 0 \<le> l \<and> l < 10 then 1 else (0::real))"
  using hot_sum_nth [of l "\<lambda>j. 1"] by simp

lemma objective_closed:
  assumes "shape_ok s" "length ls = length x" "x \<noteq> []"
  shows "objective s x ls =
         - (\<Sum>n<length x.
              (\<Sum>j<10. (if ls ! n = int j then 1 else 0) * lin s x ! n ! j)
              - (\<Sum>j<10. (if ls ! n = int j then 1 else 0)) * ln (\<Sum>j<10. exp (lin s x ! n ! j)))
           / real (length x * 10)"
proof -
  have "(\<Sum>n<length x. if 0 \<le> ls ! n \<and> ls ! n < 10 then log_prob s x ! n ! nat (ls ! n) else 0) =
        (\<Sum>n<length x.
              (\<Sum>j<10. (if ls ! n = int j then 1 else 0) * lin s x ! n ! j)
              - (\<Sum>j<10. (if ls ! n = int j then 1 else 0)) * ln (\<Sum>j<10. exp (lin s x ! n ! j)))"
  proof (rule sum.cong)
    fix n assume "n \<in> {..<length x}"
    then have n: "n < length x" by simp
    show "(if 0 \<le> ls ! n \<and> ls ! n < 10 then log_prob s x ! n ! nat (ls ! n) else 0) =
          (\<Sum>j<10. (if ls ! n = int j then 1 else 0) * lin s x ! n ! j)
          - (\<Sum>j<10. (if ls ! n = int j then 1 else 0)) * ln (\<Sum>j<10. exp (lin s x ! n ! j))"
      using assms(1) n by (simp add: hot_sum_nth hot_sum log_prob_nth nat_less_iff)
  qed simp
  then show ?thesis
    using loss_value [OF assms] by (simp add: objective_def)
qed

lemma row_deriv:
  fixes a D d :: "nat \<Rightarrow> real"
  shows "((\<lambda>t. (\<Sum>j<10. D j * (a j + d j * c * (t - w)))
               - q * ln (\<Sum>j<10. exp (a j + d j * c * (t - w))))
          has_real_derivative
          (\<Sum>j<10. D j * (d j * c)) - q * ((\<Sum>j<10. exp (a j) * (d j * c)) / (\<Sum>j<10. exp (a j))))
         (at w)"
proof -
  have pos: "0 < (\<Sum>j<10. exp (a j))"
  proof (rule sum_pos)
    show "{..<10::nat} \<noteq> {}"
      by (simp add: lessThan_empty_iff)
  qed simp_all
  have 1: "((\<lambda>t. \<Sum>j<10. D j * (a j + d j * c * (t - w))) has_real_derivative
            (\<Sum>j<10. D j * (d j * c))) (at w)"
    by (auto intro!: derivative_eq_intros simp: mult_ac)
  have 2: "((\<lambda>t. \<Sum>j<10. exp (a j + d j * c * (t - w))) has_real_derivative
            (\<Sum>j<10. exp (a j) * (d j * c))) (at w)"
    by (auto intro!: derivative_eq_intros simp: mult_ac)
  have 3: "((\<lambda>t. ln (\<Sum>j<10. exp (a j + d j * c * (t - w)))) has_real_derivative
            (\<Sum>j<10. exp (a j) * (d j * c)) / (\<Sum>j<10. exp (a j))) (at w)"
    using pos by (auto intro!: derivative_eq_intros 2)
  show ?thesis
    by (intro DERIV_diff DERIV_cmult 1 3)
qed

lemma pick_sum:
  fixes f :: "nat \<Rightarrow> real"
  assumes "k < 10"
  shows "(\<Sum>j<10. f j * ((if j = k then 1 else 0) * c)) = f k * c"
proof -
  have "(\<Sum>j<10. f j * ((if j = k then 1 else 0) * c)) = (\<Sum>j<10. if j = k then f j * c else 0)"
    by (rule sum.cong) auto
  then show ?thesis
    using assms by (simp add: sum.delta)
qed

lemma objective_deriv:
  assumes "shape_ok s" "length ls = length x" "x \<noteq> []" "k < 10"
    and ok: "\<And>t. shape_ok (u t)"
    and pert: "\<And>t n j. n < length x \<Longrightarrow> j < 10 \<Longrightarrow>
                 lin (u t) x ! n ! j = lin s x ! n ! j + (if j = k then 1 else 0) * c n * (t - w)"
  shows "((\<lambda>t. objective (u t) x ls) has_real_derivative
            (\<Sum>n<length x. c n *
               ((prob s x ! n ! k * (\<Sum>j<10. if ls ! n = int j then 1 else 0)
                  - (if ls ! n = int k then 1 else 0)) / real (length x * 10))))
         (at w)"
proof -
  let ?D = "\<lambda>n j. if ls ! n = int j then 1 else (0::real)"
  let ?d = "\<lambda>j. if j = k then 1 else (0::real)"
  let ?a = "\<lambda>n j. lin s x ! n ! j"
  let ?S = "\<lambda>n. \<Sum>j<10. exp (?a n j)"
  let ?r = "\<lambda>n t. (\<Sum>j<10. ?D n j * (?a n j + ?d j * c n * (t - w)))
                 - (\<Sum>j<10. ?D n j) * ln (\<Sum>j<10. exp (?a n j + ?d j * c n * (t - w)))"
  let ?r' = "\<lambda>n. (\<Sum>j<10. ?D n j * (?d j * c n))
                 - (\<Sum>j<10. ?D n j) * ((\<Sum>j<10. exp (?a n j) * (?d j * c n)) / ?S n)"
  let ?N = "real (length x * 10)"
  have eq: "(\<lambda>t. objective (u t) x ls) = (\<lambda>t. - (\<Sum>n<length x. ?r n t) / ?N)"
  proof
    fix t
    have "(\<Sum>n<length x.
              (\<Sum>j<10. ?D n j * lin (u t) x ! n ! j)
              - (\<Sum>j<10. ?D n j) * ln (\<Sum>j<10. exp (lin (u t) x ! n ! j))) =
          (\<Sum>n<length x. ?r n t)"
    proof (rule sum.cong)
      fix n assume "n \<in> {..<length x}"
      then have n: "n < length x" by simp
      have "(\<Sum>j<10. ?D n j * lin (u t) x ! n ! j) = (\<Sum>j<10. ?D n j * (?a n j + ?d j * c n * (t - w)))"
        by (rule sum.cong) (simp_all add: pert [OF n])
      moreover have "(\<Sum>j<10. exp (lin (u t) x ! n ! j)) = (\<Sum>j<10. exp (?a n j + ?d j * c n * (t - w)))"
        by (rule sum.cong) (simp_all add: pert [OF n])
      ultimately show "(\<Sum>j<10. ?D n j * lin (u t) x ! n ! j)
              - (\<Sum>j<10. ?D n j) * ln (\<Sum>j<10. exp (lin (u t) x ! n ! j)) = ?r n t"
        by (simp only:)
    qed simp
    then show "objective (u t) x ls = - (\<Sum>n<length x. ?r n t) / ?N"
      using objective_closed [OF ok assms(2,3), of t] by (simp only:)
  qed
  have "((\<lambda>t. - (\<Sum>n<length x. ?r n t) / ?N) has_real_derivative - (\<Sum>n<length x. ?r' n) / ?N) (at w)"
    by (intro DERIV_cdivide DERIV_minus DERIV_sum row_deriv)
  moreover have "- (\<Sum>n<length x. ?r' n) / ?N =
        (\<Sum>n<length x. c n * ((prob s x ! n ! k * (\<Sum>j<10. ?D n j) - ?D n k) / ?N))"
  proof -
    have "- (\<Sum>n<length x. ?r' n) / ?N = (\<Sum>n<length x. - ?r' n / ?N)"
      by (simp only: sum_negf [symmetric] sum_divide_distrib)
    also have "\<dots> = (\<Sum>n<length x. c n * ((prob s x ! n ! k * (\<Sum>j<10. ?D n j) - ?D n k) / ?N))"
    proof (rule sum.cong)
      fix n assume "n \<in> {..<length x}"
      then have n: "n < length x" by simp
      have "?r' n = ?D n k * c n - (\<Sum>j<10. ?D n j) * (exp (?a n k) * c n / ?S n)"
        by (simp only: pick_sum [OF assms(4)])
      moreover have "prob s x ! n ! k = exp (?a n k) / ?S n"
        using assms(1,4) n by (simp add: prob_nth)
      ultimately show "- ?r' n / ?N = c n * ((prob s x ! n ! k * (\<Sum>j<10. ?D n j) - ?D n k) / ?N)"
        by (simp only:) (simp add: field_simps)
    qed simp
    finally show ?thesis .
  qed
  ultimately show ?thesis
    unfolding eq by (simp only:)
qed

lemma gradients_eq:
  fixes s :: variables
  assumes "length ls = length x"
  defines "G \<equiv> grad_lin s x (grad_elin s x (grad_prob s x
                   (map2 (map2 (*)) (grad_p (length x)) (determ ls))))"
  shows "gradients s x ls = Inr (grad_weights x G, grad_bias G)" and "length G = length x"
  using assms by (simp_all add: gradients_def grad_log_prob_eq Let_def grad_p_def)

lemma grad_weights_nth:
  assumes "i < 784" "k < 10" "length g = length x"
  shows "grad_weights x g ! i ! k = (\<Sum>n<length x. x ! n ! i * g ! n ! k)"
proof -
  have "grad_weights x g ! i ! k = dot (col x i) (col g k)"
    using assms by (simp add: grad_weights_def)
  also have "\<dots> = (\<Sum>n<length x. col x i ! n * col g k ! n)"
    using assms by (intro dot_as_sum) simp_all
  also have "\<dots> = (\<Sum>n<length x. x ! n ! i * g ! n ! k)"
    by (rule sum.cong) (simp_all add: col_nth assms(3))
  finally show ?thesis .
qed

lemma grad_bias_nth:
  assumes "k < 10"
  shows "grad_bias g ! k = (\<Sum>n<length g. g ! n ! k)"
proof -
  have "grad_bias g ! k = sum_list (col g k)"
    using assms by (simp add: grad_bias_def colsums_def)
  also have "\<dots> = (\<Sum>n<length g. col g k ! n)"
    by (simp add: sum_list_as_sum)
  also have "\<dots> = (\<Sum>n<length g. g ! n ! k)"
    by (rule sum.cong) (simp_all add: col_nth)
  finally show ?thesis .
qed

text \<open>
  In exact arithmetic: for a parameter set of the notebook's shapes, a batch of \<open>n > 0\<close>
  images of 784 pixels with \<open>n\<close> labels and any step size \<open>rate\<close>, the reverse-mode pass
  succeeds, and what it returns is the gradient of the objective at the current
  parameters: the entry \<open>(i, k)\<close> of \<open>gw\<close> is the derivative of the objective in the weight
  \<open>(i, k)\<close>, the entry \<open>k\<close> of \<open>gb\<close> its derivative in the bias \<open>k\<close>. The update replaces
  every weight and every bias by its old value minus \<open>rate\<close> times that entry, and keeps
  the shapes. In single precision the pass is rounded, and the equality with the
  derivative is lost.
\<close>

theorem update_is_gradient_step:
  assumes "shape_ok s" and "is_matrix (length ls) 784 x" and "ls \<noteq> []"
  shows "\<exists>gw gb s'.
           gradients s x ls = Inr (gw, gb) \<and>
           update_ops rate s x ls = Inr s' \<and>
           shape_ok s' \<and>
           (\<forall>i<784. \<forall>k<10.
              ((\<lambda>t. objective (s\<lparr>weights := (weights s)[i := (weights s ! i)[k := t]]\<rparr>) x ls)
                 has_real_derivative gw ! i ! k) (at (weights s ! i ! k)) \<and>
              weights s' ! i ! k = weights s ! i ! k - rate * gw ! i ! k) \<and>
           (\<forall>k<10.
              ((\<lambda>t. objective (s\<lparr>bias := (bias s)[k := t]\<rparr>) x ls)
                 has_real_derivative gb ! k) (at (bias s ! k)) \<and>
              bias s' ! k = bias s ! k - rate * gb ! k)"
proof -
  define G where "G = grad_lin s x (grad_elin s x (grad_prob s x
                   (map2 (map2 (*)) (grad_p (length x)) (determ ls))))"
  define gw where "gw = grad_weights x G"
  define gb where "gb = grad_bias G"
  define s' where "s' = \<lparr>weights = map2 (map2 (\<lambda>v g. v - rate * g)) (weights s) gw,
                            bias = map2 (\<lambda>v g. v - rate * g) (bias s) gb\<rparr>"
  have len: "length ls = length x" and rows: "\<And>n. n < length x \<Longrightarrow> length (x ! n) = 784"
    and ne: "x \<noteq> []"
    using assms(2,3) by (auto simp: is_matrix_def)
  have g: "gradients s x ls = Inr (gw, gb)" and lG: "length G = length x"
    using gradients_eq [OF len, of s] by (simp_all add: G_def gw_def gb_def)
  have u: "update_ops rate s x ls = Inr s'"
    using g by (simp add: update_ops_def s'_def)
  have ok: "shape_ok s'"
    using assms(1) u by (rule update_ops_shape)
  have Gnk: "\<And>n k. n < length x \<Longrightarrow> k < 10 \<Longrightarrow>
        G ! n ! k = (prob s x ! n ! k * (\<Sum>j<10. if ls ! n = int j then 1 else 0)
                       - (if ls ! n = int k then 1 else 0)) / real (length x * 10)"
    unfolding G_def using assms(1) len by (rule backprop_to_lin)
  have lW: "length (weights s) = 784" "\<And>i. i < 784 \<Longrightarrow> length (weights s ! i) = 10"
    and lb: "length (bias s) = 10"
    using assms(1) by (simp_all add: shape_ok_def is_matrix_def)
  have lgw: "length gw = 784" "\<And>i. i < 784 \<Longrightarrow> length (gw ! i) = 10" and lgb: "length gb = 10"
    by (simp_all add: gw_def gb_def grad_weights_def grad_bias_def colsums_def)
  have w: "((\<lambda>t. objective (s\<lparr>weights := (weights s)[i := (weights s ! i)[k := t]]\<rparr>) x ls)
                 has_real_derivative gw ! i ! k) (at (weights s ! i ! k)) \<and>
              weights s' ! i ! k = weights s ! i ! k - rate * gw ! i ! k"
    if ik: "i < 784" "k < 10" for i k
  proof
    have "((\<lambda>t. objective (s\<lparr>weights := (weights s)[i := (weights s ! i)[k := t]]\<rparr>) x ls)
            has_real_derivative
            (\<Sum>n<length x. x ! n ! i *
               ((prob s x ! n ! k * (\<Sum>j<10. if ls ! n = int j then 1 else 0)
                  - (if ls ! n = int k then 1 else 0)) / real (length x * 10))))
          (at (weights s ! i ! k))"
      using assms(1) len ne ik(2)
    proof (rule objective_deriv)
      show "shape_ok (s\<lparr>weights := (weights s)[i := (weights s ! i)[k := t]]\<rparr>)" for t
        using assms(1) ik by (rule shape_ok_update_weights)
      show "lin (s\<lparr>weights := (weights s)[i := (weights s ! i)[k := t]]\<rparr>) x ! n ! j =
            lin s x ! n ! j + (if j = k then 1 else 0) * (x ! n ! i) * (t - weights s ! i ! k)"
        if "n < length x" "j < 10" for t n j
        using assms(1) ik that(1) rows [OF that(1)] that(2) by (rule lin_update_weights)
    qed
    moreover have "gw ! i ! k = (\<Sum>n<length x. x ! n ! i * G ! n ! k)"
      unfolding gw_def using ik lG by (rule grad_weights_nth)
    moreover have "(\<Sum>n<length x. x ! n ! i * G ! n ! k) =
          (\<Sum>n<length x. x ! n ! i *
               ((prob s x ! n ! k * (\<Sum>j<10. if ls ! n = int j then 1 else 0)
                  - (if ls ! n = int k then 1 else 0)) / real (length x * 10)))"
      by (rule sum.cong) (simp_all add: Gnk ik(2))
    ultimately show "((\<lambda>t. objective (s\<lparr>weights := (weights s)[i := (weights s ! i)[k := t]]\<rparr>) x ls)
                 has_real_derivative gw ! i ! k) (at (weights s ! i ! k))"
      by (simp only:)
    show "weights s' ! i ! k = weights s ! i ! k - rate * gw ! i ! k"
      using ik lW lgw by (simp add: s'_def)
  qed
  have b: "((\<lambda>t. objective (s\<lparr>bias := (bias s)[k := t]\<rparr>) x ls)
                 has_real_derivative gb ! k) (at (bias s ! k)) \<and>
              bias s' ! k = bias s ! k - rate * gb ! k"
    if k: "k < 10" for k
  proof
    have "((\<lambda>t. objective (s\<lparr>bias := (bias s)[k := t]\<rparr>) x ls)
            has_real_derivative
            (\<Sum>n<length x. 1 *
               ((prob s x ! n ! k * (\<Sum>j<10. if ls ! n = int j then 1 else 0)
                  - (if ls ! n = int k then 1 else 0)) / real (length x * 10))))
          (at (bias s ! k))"
      using assms(1) len ne k
    proof (rule objective_deriv)
      show "shape_ok (s\<lparr>bias := (bias s)[k := t]\<rparr>)" for t
        using assms(1) by (rule shape_ok_update_bias)
      show "lin (s\<lparr>bias := (bias s)[k := t]\<rparr>) x ! n ! j =
            lin s x ! n ! j + (if j = k then 1 else 0) * 1 * (t - bias s ! k)"
        if "n < length x" "j < 10" for t n j
        using assms(1) k that by (rule lin_update_bias)
    qed
    moreover have "gb ! k = (\<Sum>n<length x. G ! n ! k)"
      unfolding gb_def using grad_bias_nth [OF k, of G] lG by simp
    moreover have "(\<Sum>n<length x. G ! n ! k) =
          (\<Sum>n<length x. 1 *
               ((prob s x ! n ! k * (\<Sum>j<10. if ls ! n = int j then 1 else 0)
                  - (if ls ! n = int k then 1 else 0)) / real (length x * 10)))"
      by (rule sum.cong) (simp_all add: Gnk k)
    ultimately show "((\<lambda>t. objective (s\<lparr>bias := (bias s)[k := t]\<rparr>) x ls)
                 has_real_derivative gb ! k) (at (bias s ! k))"
      by (simp only:)
    show "bias s' ! k = bias s ! k - rate * gb ! k"
      using k lb lgb by (simp add: s'_def)
  qed
  from g u ok w b show ?thesis
    by blast
qed


theorem update_is_gradient_step_witness:
  "shape_ok zero_variables \<and> is_matrix (length [0::int]) 784 [replicate 784 0] \<and> [0::int] \<noteq> [] \<and>
   (\<exists>gw gb s'.
      gradients zero_variables [replicate 784 0] [0] = Inr (gw, gb) \<and>
      update_ops (1 / 10) zero_variables [replicate 784 0] [0] = Inr s' \<and>
      shape_ok s' \<and>
      (\<forall>i<784. \<forall>k<10.
         ((\<lambda>t. objective
                 (zero_variables\<lparr>weights :=
                    (weights zero_variables)[i := (weights zero_variables ! i)[k := t]]\<rparr>)
                 [replicate 784 0] [0])
            has_real_derivative gw ! i ! k) (at (weights zero_variables ! i ! k)) \<and>
         weights s' ! i ! k = weights zero_variables ! i ! k - 1 / 10 * gw ! i ! k) \<and>
      (\<forall>k<10.
         ((\<lambda>t. objective (zero_variables\<lparr>bias := (bias zero_variables)[k := t]\<rparr>)
                 [replicate 784 0] [0])
            has_real_derivative gb ! k) (at (bias zero_variables ! k)) \<and>
         bias s' ! k = bias zero_variables ! k - 1 / 10 * gb ! k))"
proof -
  have m: "is_matrix (length [0::int]) 784 [replicate 784 0]"
    by (simp add: is_matrix_def)
  have n: "[0::int] \<noteq> []"
    by simp
  show ?thesis
    using update_is_gradient_step [OF shape_ok_zero_variables m n, of "1 / 10"]
      shape_ok_zero_variables m
    by simp
qed

subsection \<open>Descent for a small step, in exact arithmetic\<close>

lemma exp_quadratic_bound:
  fixes y :: real
  assumes "\<bar>y\<bar> \<le> 1"
  shows "exp y \<le> 1 + y + y\<^sup>2"
proof (cases "0 \<le> y")
  case True
  with assms show ?thesis
    by (intro exp_bound) simp_all
next
  case False
  then have y: "y < 0" by simp
  have "1 - y \<le> exp (- y)"
    using exp_ge_add_one_self [of "- y"] by simp
  moreover have p: "0 < 1 - y"
    using y by simp
  ultimately have "exp y \<le> 1 / (1 - y)"
    by (simp add: exp_minus field_simps)
  also have "1 / (1 - y) \<le> 1 + y + y\<^sup>2"
  proof -
    have "(y * y) * y \<le> 0"
      using y by (intro mult_nonneg_nonpos) simp_all
    then have "1 \<le> (1 + y + y\<^sup>2) * (1 - y)"
      by (simp add: power2_eq_square algebra_simps)
    then show ?thesis
      using p by (simp add: pos_divide_le_eq)
  qed
  finally show ?thesis .
qed

lemma cauchy_schwarz_sum:
  fixes u v :: "'a \<Rightarrow> real"
  shows "(\<Sum>i\<in>A. u i * v i)\<^sup>2 \<le> (\<Sum>i\<in>A. (u i)\<^sup>2) * (\<Sum>i\<in>A. (v i)\<^sup>2)"
proof -
  have "0 \<le> (\<Sum>i\<in>A. \<Sum>j\<in>A. (u i * v j - u j * v i)\<^sup>2)"
    by (intro sum_nonneg) simp
  also have "(\<Sum>i\<in>A. \<Sum>j\<in>A. (u i * v j - u j * v i)\<^sup>2) =
      (\<Sum>i\<in>A. \<Sum>j\<in>A. (u i)\<^sup>2 * (v j)\<^sup>2 + (u j)\<^sup>2 * (v i)\<^sup>2 - 2 * ((u i * v i) * (u j * v j)))"
    by (intro sum.cong refl) (simp add: power2_eq_square algebra_simps)
  also have "\<dots> = (\<Sum>i\<in>A. (u i)\<^sup>2) * (\<Sum>j\<in>A. (v j)\<^sup>2) + (\<Sum>j\<in>A. (u j)\<^sup>2) * (\<Sum>i\<in>A. (v i)\<^sup>2)
      - 2 * ((\<Sum>i\<in>A. u i * v i) * (\<Sum>j\<in>A. u j * v j))"
    by (simp add: sum_subtractf sum.distrib sum_product sum_distrib_left [symmetric] sum.swap [of _ A A])
  finally show ?thesis
    by (simp add: power2_eq_square)
qed

lemma sum_exp_pos: "0 < (\<Sum>j<10::nat. exp (a j :: real))"
proof (rule sum_pos)
  show "{..<10::nat} \<noteq> {}"
    by (simp add: lessThan_empty_iff)
qed simp_all

lemma lse_shift_bound:
  fixes a y :: "nat \<Rightarrow> real"
  assumes "\<And>j. j < 10 \<Longrightarrow> \<bar>y j\<bar> \<le> 1"
  shows "ln (\<Sum>j<10. exp (a j + y j)) - ln (\<Sum>j<10. exp (a j)) \<le>
         (\<Sum>j<10. exp (a j) / (\<Sum>j<10. exp (a j)) * (y j + (y j)\<^sup>2))"
proof -
  let ?S = "\<Sum>j<10. exp (a j)"
  let ?S' = "\<Sum>j<10. exp (a j + y j)"
  have S: "0 < ?S" and S': "0 < ?S'"
    by (rule sum_exp_pos)+
  have "ln ?S' - ln ?S = ln (?S' / ?S)"
    using S S' by (simp add: ln_div)
  also have "\<dots> \<le> ?S' / ?S - 1"
    using S S' by (intro ln_le_minus_one) simp
  also have "?S' / ?S - 1 = (\<Sum>j<10. exp (a j) / ?S * (exp (y j) - 1))"
  proof -
    have "(\<Sum>j<10. exp (a j) / ?S * (exp (y j) - 1)) =
          (\<Sum>j<10. exp (a j + y j) / ?S) - (\<Sum>j<10. exp (a j) / ?S)"
      by (simp add: sum_subtractf [symmetric] exp_add algebra_simps diff_divide_distrib)
    also have "\<dots> = ?S' / ?S - ?S / ?S"
      by (simp only: sum_divide_distrib)
    finally show ?thesis
      using S by simp
  qed
  also have "\<dots> \<le> (\<Sum>j<10. exp (a j) / ?S * (y j + (y j)\<^sup>2))"
  proof (rule sum_mono)
    fix j :: nat assume "j \<in> {..<10}"
    then have "exp (y j) \<le> 1 + y j + (y j)\<^sup>2"
      using assms by (intro exp_quadratic_bound) simp
    moreover have "0 \<le> exp (a j) / ?S"
      using S by simp
    ultimately show "exp (a j) / ?S * (exp (y j) - 1) \<le> exp (a j) / ?S * (y j + (y j)\<^sup>2)"
      by (intro mult_left_mono) simp_all
  qed
  finally show ?thesis .
qed

lemma gradients_shape:
  assumes "gradients s x ls = Inr (gw, gb)"
  shows "is_matrix 784 10 gw" "length gb = 10"
  using assms
  by (auto simp: gradients_def Let_def is_matrix_grad_weights length_grad_bias split: sum.splits)

lemma update_ops_nth:
  assumes "shape_ok s" "gradients s x ls = Inr (gw, gb)" "update_ops rate s x ls = Inr s'"
  shows "i < 784 \<Longrightarrow> k < 10 \<Longrightarrow> weights s' ! i ! k = weights s ! i ! k - rate * gw ! i ! k"
    and "k < 10 \<Longrightarrow> bias s' ! k = bias s ! k - rate * gb ! k"
proof -
  have s': "s' = \<lparr>weights = map2 (map2 (\<lambda>v g. v - rate * g)) (weights s) gw,
                    bias = map2 (\<lambda>v g. v - rate * g) (bias s) gb\<rparr>"
    using assms(2,3) by (simp add: update_ops_def)
  have g: "length gw = 784" "\<And>i. i < 784 \<Longrightarrow> length (gw ! i) = 10" "length gb = 10"
    using gradients_shape [OF assms(2)] by (simp_all add: is_matrix_def)
  have w: "length (weights s) = 784" "\<And>i. i < 784 \<Longrightarrow> length (weights s ! i) = 10"
    "length (bias s) = 10"
    using assms(1) by (simp_all add: shape_ok_def is_matrix_def)
  show "i < 784 \<Longrightarrow> k < 10 \<Longrightarrow> weights s' ! i ! k = weights s ! i ! k - rate * gw ! i ! k"
    using g w by (simp add: s')
  show "k < 10 \<Longrightarrow> bias s' ! k = bias s ! k - rate * gb ! k"
    using g w by (simp add: s')
qed

lemma lin_after_update:
  assumes "shape_ok s" "gradients s x ls = Inr (gw, gb)" "update_ops rate s x ls = Inr s'"
    and "n < length x" "length (x ! n) = 784" "j < 10"
  shows "lin s' x ! n ! j =
         lin s x ! n ! j - rate * ((\<Sum>i<784. x ! n ! i * gw ! i ! j) + gb ! j)"
proof -
  have ok: "shape_ok s'"
    using assms(1,3) by (rule update_ops_shape)
  have l: "length (weights s) = 784" "length (weights s') = 784"
    using assms(1) ok by (simp_all add: shape_ok_def is_matrix_def)
  have "dot (x ! n) (col (weights s') j) = (\<Sum>i<784. x ! n ! i * col (weights s') j ! i)"
    using assms(5) l by (intro dot_as_sum) simp_all
  also have "\<dots> = (\<Sum>i<784. x ! n ! i * weights s ! i ! j - rate * (x ! n ! i * gw ! i ! j))"
    by (rule sum.cong)
      (simp_all add: col_nth l update_ops_nth(1) [OF assms(1-3)] assms(6) algebra_simps)
  also have "\<dots> = (\<Sum>i<784. x ! n ! i * col (weights s) j ! i) - rate * (\<Sum>i<784. x ! n ! i * gw ! i ! j)"
    by (simp add: sum_subtractf sum_distrib_left col_nth l)
  also have "(\<Sum>i<784. x ! n ! i * col (weights s) j ! i) = dot (x ! n) (col (weights s) j)"
    using assms(5) l by (intro dot_as_sum [symmetric]) simp_all
  finally show ?thesis
    using lin_nth [OF ok assms(4,6)] lin_nth [OF assms(1,4,6)] update_ops_nth(2) [OF assms(1-3,6)]
    by (simp add: algebra_simps)
qed

lemma gradient_entries:
  assumes "shape_ok s" "length ls = length x" "gradients s x ls = Inr (gw, gb)"
  shows "i < 784 \<Longrightarrow> k < 10 \<Longrightarrow>
           gw ! i ! k = (\<Sum>n<length x. x ! n ! i * softmax_minus_onehot s x ls n k)"
    and "k < 10 \<Longrightarrow> gb ! k = (\<Sum>n<length x. softmax_minus_onehot s x ls n k)"
proof -
  define G where "G = grad_lin s x (grad_elin s x (grad_prob s x
                   (map2 (map2 (*)) (grad_p (length x)) (determ ls))))"
  have g: "gw = grad_weights x G" "gb = grad_bias G" and lG: "length G = length x"
    using gradients_eq [OF assms(2), of s] assms(3) by (simp_all add: G_def)
  have Gnk: "\<And>n k. n < length x \<Longrightarrow> k < 10 \<Longrightarrow> G ! n ! k = softmax_minus_onehot s x ls n k"
    unfolding G_def softmax_minus_onehot_def using assms(1,2) by (rule backprop_to_lin)
  show "gw ! i ! k = (\<Sum>n<length x. x ! n ! i * softmax_minus_onehot s x ls n k)"
    if "i < 784" "k < 10"
  proof -
    have "gw ! i ! k = (\<Sum>n<length x. x ! n ! i * G ! n ! k)"
      unfolding g using that lG by (rule grad_weights_nth)
    also have "\<dots> = (\<Sum>n<length x. x ! n ! i * softmax_minus_onehot s x ls n k)"
      by (rule sum.cong) (simp_all add: Gnk that(2))
    finally show ?thesis .
  qed
  show "gb ! k = (\<Sum>n<length x. softmax_minus_onehot s x ls n k)" if "k < 10"
  proof -
    have "gb ! k = (\<Sum>n<length x. G ! n ! k)"
      unfolding g using grad_bias_nth [OF that, of G] lG by simp
    also have "\<dots> = (\<Sum>n<length x. softmax_minus_onehot s x ls n k)"
      by (rule sum.cong) (simp_all add: Gnk that)
    finally show ?thesis .
  qed
qed

lemma prob_range:
  assumes "shape_ok s" "n < length x" "k < 10"
  shows "0 \<le> prob s x ! n ! k" "prob s x ! n ! k \<le> 1"
proof -
  let ?S = "\<Sum>j<10. exp (lin s x ! n ! j)"
  have S: "0 < ?S"
    by (rule sum_exp_pos)
  have "exp (lin s x ! n ! k) \<le> ?S"
    using assms(3) by (intro member_le_sum) simp_all
  then show "0 \<le> prob s x ! n ! k" "prob s x ! n ! k \<le> 1"
    using S assms by (simp_all add: prob_nth)
qed

lemma softmax_minus_onehot_bound:
  assumes "shape_ok s" "n < length x" "k < 10"
  shows "(softmax_minus_onehot s x ls n k)\<^sup>2 \<le> 1 / (real (length x * 10))\<^sup>2"
proof -
  let ?P = "prob s x ! n ! k"
  let ?q = "\<Sum>j<10. if ls ! n = int j then 1 else (0::real)"
  let ?D = "if ls ! n = int k then 1 else (0::real)"
  have P: "0 \<le> ?P" "?P \<le> 1"
    using assms by (rule prob_range)+
  have "\<bar>?P * ?q - ?D\<bar> \<le> 1"
    using P assms(3) by (auto simp: hot_sum)
  then have "(?P * ?q - ?D)\<^sup>2 \<le> 1"
    by (simp add: abs_square_le_1)
  then have "(?P * ?q - ?D)\<^sup>2 / (real (length x * 10))\<^sup>2 \<le> 1 / (real (length x * 10))\<^sup>2"
    by (intro divide_right_mono) simp_all
  then show ?thesis
    by (simp add: softmax_minus_onehot_def power_divide)
qed

lemma row_decrease:
  fixes a c D :: "nat \<Rightarrow> real"
  assumes "\<And>j. j < 10 \<Longrightarrow> \<bar>rate * c j\<bar> \<le> 1" and "0 \<le> q" and "q \<le> 1"
  shows "((\<Sum>j<10. D j * a j) - q * ln (\<Sum>j<10. exp (a j)))
           - ((\<Sum>j<10. D j * (a j - rate * c j)) - q * ln (\<Sum>j<10. exp (a j - rate * c j)))
         \<le> - rate * (\<Sum>j<10. (exp (a j) / (\<Sum>j<10. exp (a j)) * q - D j) * c j)
             + rate\<^sup>2 * (\<Sum>j<10. (c j)\<^sup>2)"
proof -
  let ?S = "\<Sum>j<10. exp (a j)"
  let ?P = "\<lambda>j. exp (a j) / ?S"
  have S: "0 < ?S"
    by (rule sum_exp_pos)
  have P: "0 \<le> ?P j" "?P j \<le> 1" if "j < 10" for j
  proof -
    have "exp (a j) \<le> ?S"
      using that by (intro member_le_sum) simp_all
    then show "0 \<le> ?P j" "?P j \<le> 1"
      using S by simp_all
  qed
  define lnS where "lnS = ln ?S"
  define lnS' where "lnS' = ln (\<Sum>j<10. exp (a j - rate * c j))"
  define PC where "PC = (\<Sum>j<10. ?P j * c j)"
  define PC2 where "PC2 = (\<Sum>j<10. ?P j * (c j)\<^sup>2)"
  define C2 where "C2 = (\<Sum>j<10. (c j)\<^sup>2)"
  define B where "B = (\<Sum>j<10. D j * c j)"
  define A where "A = (\<Sum>j<10. D j * a j)"
  define A' where "A' = (\<Sum>j<10. D j * (a j - rate * c j))"
  define T where "T = (\<Sum>j<10. (?P j * q - D j) * c j)"
  have "ln (\<Sum>j<10. exp (a j + - (rate * c j))) - ln ?S \<le>
        (\<Sum>j<10. ?P j * (- (rate * c j) + (- (rate * c j))\<^sup>2))"
    using assms(1) by (intro lse_shift_bound) simp
  also have "(\<Sum>j<10. ?P j * (- (rate * c j) + (- (rate * c j))\<^sup>2)) =
        (\<Sum>j<10. - rate * (?P j * c j) + rate\<^sup>2 * (?P j * (c j)\<^sup>2))"
    by (rule sum.cong) (simp_all add: power_mult_distrib algebra_simps)
  also have "\<dots> = - rate * PC + rate\<^sup>2 * PC2"
    by (simp only: sum.distrib sum_distrib_left PC_def PC2_def)
  finally have "lnS' - lnS \<le> - rate * PC + rate\<^sup>2 * PC2"
    by (simp add: lnS_def lnS'_def)
  then have "q * (lnS' - lnS) \<le> q * (- rate * PC + rate\<^sup>2 * PC2)"
    using assms(2) by (intro mult_left_mono)
  then have f1: "q * lnS' - q * lnS \<le> - (rate * (q * PC)) + rate\<^sup>2 * (q * PC2)"
    by (simp add: algebra_simps)
  have "q * PC2 \<le> 1 * C2"
    unfolding PC2_def C2_def
  proof (intro mult_mono assms sum_mono)
    fix j :: nat assume "j \<in> {..<10}"
    then have "?P j * (c j)\<^sup>2 \<le> 1 * (c j)\<^sup>2"
      using P by (intro mult_right_mono) simp_all
    then show "?P j * (c j)\<^sup>2 \<le> (c j)\<^sup>2"
      by simp
  qed (simp_all add: sum_nonneg)
  then have f2: "rate\<^sup>2 * (q * PC2) \<le> rate\<^sup>2 * C2"
    by (intro mult_left_mono) simp_all
  have "(\<Sum>j<10. D j * (a j - rate * c j)) = (\<Sum>j<10. D j * a j - rate * (D j * c j))"
    by (rule sum.cong) (simp_all add: algebra_simps)
  then have f3: "A' = A - rate * B"
    by (simp only: A_def A'_def B_def sum_subtractf sum_distrib_left)
  have "(\<Sum>j<10. (?P j * q - D j) * c j) = (\<Sum>j<10. q * (?P j * c j) - D j * c j)"
    by (rule sum.cong) (simp_all add: algebra_simps)
  then have "T = q * PC - B"
    by (simp only: T_def PC_def B_def sum_subtractf sum_distrib_left)
  then have "rate * T = rate * (q * PC - B)"
    by (simp only:)
  then have f4: "rate * T = rate * (q * PC) - rate * B"
    by (simp only: right_diff_distrib)
  have "(A - q * lnS) - (A' - q * lnS') \<le> - (rate * T) + rate\<^sup>2 * C2"
    using f1 f2 f3 f4 by linarith
  then show ?thesis
    by (simp add: A_def A'_def lnS_def lnS'_def T_def C2_def)
qed

lemma logit_shift_cs:
  "(logit_shift x gw gb n j)\<^sup>2 \<le>
   ((\<Sum>i<784. (x ! n ! i)\<^sup>2) + 1) * ((\<Sum>i<784. (gw ! i ! j)\<^sup>2) + (gb ! j)\<^sup>2)"
proof -
  let ?u = "\<lambda>i. if i < 784 then x ! n ! i else 1"
  let ?v = "\<lambda>i. if i < 784 then gw ! i ! j else gb ! j"
  have "(\<Sum>i<784. ?u i * ?v i) = (\<Sum>i<784. x ! n ! i * gw ! i ! j)"
    by (rule sum.cong) simp_all
  then have 1: "(\<Sum>i<Suc 784. ?u i * ?v i) = logit_shift x gw gb n j"
    by (simp only: sum.lessThan_Suc logit_shift_def) simp
  have "(\<Sum>i<784. (?u i)\<^sup>2) = (\<Sum>i<784. (x ! n ! i)\<^sup>2)"
    by (rule sum.cong) simp_all
  then have 2: "(\<Sum>i<Suc 784. (?u i)\<^sup>2) = (\<Sum>i<784. (x ! n ! i)\<^sup>2) + 1"
    by (simp only: sum.lessThan_Suc) simp
  have "(\<Sum>i<784. (?v i)\<^sup>2) = (\<Sum>i<784. (gw ! i ! j)\<^sup>2)"
    by (rule sum.cong) simp_all
  then have 3: "(\<Sum>i<Suc 784. (?v i)\<^sup>2) = (\<Sum>i<784. (gw ! i ! j)\<^sup>2) + (gb ! j)\<^sup>2"
    by (simp only: sum.lessThan_Suc) simp
  show ?thesis
    using cauchy_schwarz_sum [of ?u ?v "{..<Suc 784}"] unfolding 1 2 3 .
qed

lemma gradient_inner_product:
  assumes "shape_ok s" "length ls = length x" "gradients s x ls = Inr (gw, gb)"
  shows "(\<Sum>n<length x. \<Sum>j<10. softmax_minus_onehot s x ls n j * logit_shift x gw gb n j) =
         grad_norm2 gw gb"
proof -
  let ?G = "softmax_minus_onehot s x ls"
  have "(\<Sum>n<length x. \<Sum>j<10. ?G n j * logit_shift x gw gb n j) =
        (\<Sum>j<10. \<Sum>n<length x. ?G n j * logit_shift x gw gb n j)"
    by (rule sum.swap)
  also have "\<dots> = (\<Sum>j<10. (\<Sum>i<784. (gw ! i ! j)\<^sup>2) + (gb ! j)\<^sup>2)"
  proof (rule sum.cong)
    fix j :: nat assume "j \<in> {..<10}"
    then have j: "j < 10" by simp
    have "(\<Sum>n<length x. ?G n j * logit_shift x gw gb n j) =
          (\<Sum>n<length x. (\<Sum>i<784. gw ! i ! j * (x ! n ! i * ?G n j)) + gb ! j * ?G n j)"
      by (rule sum.cong) (simp_all add: logit_shift_def sum_distrib_left algebra_simps)
    also have "\<dots> = (\<Sum>n<length x. \<Sum>i<784. gw ! i ! j * (x ! n ! i * ?G n j))
                    + gb ! j * (\<Sum>n<length x. ?G n j)"
      by (simp only: sum.distrib sum_distrib_left)
    also have "(\<Sum>n<length x. \<Sum>i<784. gw ! i ! j * (x ! n ! i * ?G n j)) =
               (\<Sum>i<784. gw ! i ! j * (\<Sum>n<length x. x ! n ! i * ?G n j))"
      by (subst sum.swap) (simp only: sum_distrib_left)
    also have "\<dots> = (\<Sum>i<784. gw ! i ! j * gw ! i ! j)"
      by (rule sum.cong) (simp_all add: gradient_entries(1) [OF assms] j)
    also have "(\<Sum>n<length x. ?G n j) = gb ! j"
      using gradient_entries(2) [OF assms j] by simp
    finally show "(\<Sum>n<length x. ?G n j * logit_shift x gw gb n j) =
                  (\<Sum>i<784. (gw ! i ! j)\<^sup>2) + (gb ! j)\<^sup>2"
      by (simp add: power2_eq_square)
  qed simp
  finally show ?thesis
    by (simp add: grad_norm2_def)
qed

lemma objective_step_bound:
  assumes "shape_ok s" "is_matrix (length ls) 784 x" "ls \<noteq> []"
    and "gradients s x ls = Inr (gw, gb)" "update_ops rate s x ls = Inr s'"
    and small: "\<And>n j. n < length x \<Longrightarrow> j < 10 \<Longrightarrow> \<bar>rate * logit_shift x gw gb n j\<bar> \<le> 1"
  shows "objective s' x ls - objective s x ls \<le>
         - rate * (\<Sum>n<length x. \<Sum>j<10. softmax_minus_onehot s x ls n j * logit_shift x gw gb n j)
         + rate\<^sup>2 / real (length x * 10) * (\<Sum>n<length x. \<Sum>j<10. (logit_shift x gw gb n j)\<^sup>2)"
proof -
  let ?N = "real (length x * 10)"
  let ?D = "\<lambda>n j. if ls ! n = int j then 1 else (0::real)"
  let ?q = "\<lambda>n. \<Sum>j<10. ?D n j"
  let ?a = "\<lambda>n j. lin s x ! n ! j"
  let ?c = "logit_shift x gw gb"
  let ?G = "softmax_minus_onehot s x ls"
  let ?r = "\<lambda>n. (\<Sum>j<10. ?D n j * ?a n j) - ?q n * ln (\<Sum>j<10. exp (?a n j))"
  let ?r' = "\<lambda>n. (\<Sum>j<10. ?D n j * (?a n j - rate * ?c n j))
                  - ?q n * ln (\<Sum>j<10. exp (?a n j - rate * ?c n j))"
  have len: "length ls = length x" and rows: "\<And>n. n < length x \<Longrightarrow> length (x ! n) = 784"
    and ne: "x \<noteq> []"
    using assms(2,3) by (auto simp: is_matrix_def)
  have N: "0 < ?N"
    using ne by (cases x) simp_all
  have ok': "shape_ok s'"
    using assms(1,5) by (rule update_ops_shape)
  have lin': "lin s' x ! n ! j = ?a n j - rate * ?c n j" if "n < length x" "j < 10" for n j
    using lin_after_update [OF assms(1,4,5) that(1) rows [OF that(1)] that(2)]
    by (simp add: logit_shift_def)
  have o: "objective s x ls = - (\<Sum>n<length x. ?r n) / ?N"
    using assms(1) len ne by (rule objective_closed)
  have "(\<Sum>n<length x.
              (\<Sum>j<10. ?D n j * lin s' x ! n ! j)
              - ?q n * ln (\<Sum>j<10. exp (lin s' x ! n ! j))) = (\<Sum>n<length x. ?r' n)"
  proof (rule sum.cong)
    fix n assume "n \<in> {..<length x}"
    then have n: "n < length x" by simp
    have "(\<Sum>j<10. ?D n j * lin s' x ! n ! j) = (\<Sum>j<10. ?D n j * (?a n j - rate * ?c n j))"
      by (rule sum.cong) (simp_all add: lin' [OF n])
    moreover have "(\<Sum>j<10. exp (lin s' x ! n ! j)) = (\<Sum>j<10. exp (?a n j - rate * ?c n j))"
      by (rule sum.cong) (simp_all add: lin' [OF n])
    ultimately show "(\<Sum>j<10. ?D n j * lin s' x ! n ! j)
              - ?q n * ln (\<Sum>j<10. exp (lin s' x ! n ! j)) = ?r' n"
      by (simp only:)
  qed simp
  then have o': "objective s' x ls = - (\<Sum>n<length x. ?r' n) / ?N"
    using objective_closed [OF ok' len ne] by (simp only:)
  have row: "?r n - ?r' n \<le> - rate * (?N * (\<Sum>j<10. ?G n j * ?c n j)) + rate\<^sup>2 * (\<Sum>j<10. (?c n j)\<^sup>2)"
    if n: "n < length x" for n
  proof -
    have q: "0 \<le> ?q n" "?q n \<le> 1"
      by (simp_all add: hot_sum)
    have "?r n - ?r' n \<le>
          - rate * (\<Sum>j<10. (exp (?a n j) / (\<Sum>j<10. exp (?a n j)) * ?q n - ?D n j) * ?c n j)
          + rate\<^sup>2 * (\<Sum>j<10. (?c n j)\<^sup>2)"
      using small [OF n] q by (intro row_decrease) simp_all
    also have "(\<Sum>j<10. (exp (?a n j) / (\<Sum>j<10. exp (?a n j)) * ?q n - ?D n j) * ?c n j) =
               (\<Sum>j<10. ?N * (?G n j * ?c n j))"
    proof (rule sum.cong)
      fix j :: nat assume "j \<in> {..<10}"
      then have "prob s x ! n ! j = exp (?a n j) / (\<Sum>j<10. exp (?a n j))"
        using assms(1) n by (simp add: prob_nth)
      then show "(exp (?a n j) / (\<Sum>j<10. exp (?a n j)) * ?q n - ?D n j) * ?c n j =
                 ?N * (?G n j * ?c n j)"
        using N by (simp add: softmax_minus_onehot_def)
    qed simp
    also have "\<dots> = ?N * (\<Sum>j<10. ?G n j * ?c n j)"
      by (simp only: sum_distrib_left)
    finally show ?thesis .
  qed
  have "objective s' x ls - objective s x ls = (\<Sum>n<length x. ?r n - ?r' n) / ?N"
    unfolding o o' by (simp add: sum_subtractf diff_divide_distrib)
  also have "\<dots> \<le> (\<Sum>n<length x. - rate * (?N * (\<Sum>j<10. ?G n j * ?c n j))
                           + rate\<^sup>2 * (\<Sum>j<10. (?c n j)\<^sup>2)) / ?N"
    using N by (intro divide_right_mono sum_mono row) simp_all
  also have "\<dots> = - rate * (\<Sum>n<length x. \<Sum>j<10. ?G n j * ?c n j)
                  + rate\<^sup>2 / ?N * (\<Sum>n<length x. \<Sum>j<10. (?c n j)\<^sup>2)"
  proof -
    define SG where "SG = (\<Sum>n<length x. \<Sum>j<10. ?G n j * ?c n j)"
    define SC where "SC = (\<Sum>n<length x. \<Sum>j<10. (?c n j)\<^sup>2)"
    have "(\<Sum>n<length x. - rate * (?N * (\<Sum>j<10. ?G n j * ?c n j))
                           + rate\<^sup>2 * (\<Sum>j<10. (?c n j)\<^sup>2)) =
          - rate * (?N * SG) + rate\<^sup>2 * SC"
      by (simp only: sum.distrib sum_distrib_left [symmetric] SG_def SC_def)
    moreover have "(- rate * (?N * SG) + rate\<^sup>2 * SC) / ?N = - rate * SG + rate\<^sup>2 / ?N * SC"
      using N by (simp add: field_simps)
    ultimately show ?thesis
      by (simp only: SG_def SC_def)
  qed
  finally show ?thesis .
qed

lemma cauchy_schwarz_double:
  fixes u v :: "nat \<Rightarrow> nat \<Rightarrow> real"
  shows "(\<Sum>n\<in>A. \<Sum>j\<in>B. u n j * v n j)\<^sup>2 \<le>
         (\<Sum>n\<in>A. \<Sum>j\<in>B. (u n j)\<^sup>2) * (\<Sum>n\<in>A. \<Sum>j\<in>B. (v n j)\<^sup>2)"
  using cauchy_schwarz_sum [of "\<lambda>(n, j). u n j" "\<lambda>(n, j). v n j" "A \<times> B"]
  by (simp add: sum.cartesian_product case_prod_unfold)

lemma batch_norm2_ge:
  shows "real (length x) \<le> batch_norm2 x"
    and "n < length x \<Longrightarrow> (\<Sum>i<784. (x ! n ! i)\<^sup>2) + 1 \<le> batch_norm2 x"
proof -
  have "(\<Sum>n<length x. (1::real)) \<le> batch_norm2 x"
    unfolding batch_norm2_def by (intro sum_mono) (simp add: sum_nonneg)
  then show "real (length x) \<le> batch_norm2 x"
    by simp
  show "(\<Sum>i<784. (x ! n ! i)\<^sup>2) + 1 \<le> batch_norm2 x" if "n < length x"
    unfolding batch_norm2_def using that
    by (intro member_le_sum [of n "{..<length x}" "\<lambda>n. (\<Sum>i<784. (x ! n ! i)\<^sup>2) + 1"])
      (simp_all add: sum_nonneg add_nonneg_nonneg)
qed

lemma grad_norm2_ge:
  shows "0 \<le> grad_norm2 gw gb"
    and "j < 10 \<Longrightarrow> (\<Sum>i<784. (gw ! i ! j)\<^sup>2) + (gb ! j)\<^sup>2 \<le> grad_norm2 gw gb"
proof -
  show "0 \<le> grad_norm2 gw gb"
    unfolding grad_norm2_def by (intro sum_nonneg add_nonneg_nonneg) simp_all
  show "(\<Sum>i<784. (gw ! i ! j)\<^sup>2) + (gb ! j)\<^sup>2 \<le> grad_norm2 gw gb" if "j < 10"
    unfolding grad_norm2_def using that
    by (intro member_le_sum [of j "{..<10}" "\<lambda>j. (\<Sum>i<784. (gw ! i ! j)\<^sup>2) + (gb ! j)\<^sup>2"])
      (simp_all add: sum_nonneg add_nonneg_nonneg)
qed

lemma logit_shift_sum_bound:
  "(\<Sum>n<length x. \<Sum>j<10. (logit_shift x gw gb n j)\<^sup>2) \<le> batch_norm2 x * grad_norm2 gw gb"
proof -
  have "(\<Sum>n<length x. \<Sum>j<10. (logit_shift x gw gb n j)\<^sup>2) \<le>
        (\<Sum>n<length x. \<Sum>j<10. ((\<Sum>i<784. (x ! n ! i)\<^sup>2) + 1)
                                    * ((\<Sum>i<784. (gw ! i ! j)\<^sup>2) + (gb ! j)\<^sup>2))"
    by (intro sum_mono logit_shift_cs)
  also have "\<dots> = batch_norm2 x * grad_norm2 gw gb"
    by (simp only: batch_norm2_def grad_norm2_def sum_product)
  finally show ?thesis .
qed

lemma grad_norm2_bound:
  assumes "shape_ok s" "length ls = length x" "x \<noteq> []" "gradients s x ls = Inr (gw, gb)"
  shows "grad_norm2 gw gb \<le> batch_norm2 x / real (length x * 10)"
proof -
  let ?N = "real (length x * 10)"
  let ?Q = "grad_norm2 gw gb"
  let ?K = "batch_norm2 x"
  let ?G = "softmax_minus_onehot s x ls"
  let ?c = "logit_shift x gw gb"
  have N: "0 < ?N"
    using assms(3) by (cases x) simp_all
  have Q: "0 \<le> ?Q"
    by (rule grad_norm2_ge)
  have "(\<Sum>n<length x. \<Sum>j<10. (?G n j)\<^sup>2) \<le> (\<Sum>n<length x. \<Sum>j<10::nat. 1 / ?N\<^sup>2)"
    by (intro sum_mono softmax_minus_onehot_bound assms(1)) simp_all
  also have "\<dots> = 1 / ?N"
    using N by (simp add: power2_eq_square)
  finally have G2: "(\<Sum>n<length x. \<Sum>j<10. (?G n j)\<^sup>2) \<le> 1 / ?N" .
  have "?Q\<^sup>2 = (\<Sum>n<length x. \<Sum>j<10. ?G n j * ?c n j)\<^sup>2"
    using gradient_inner_product [OF assms(1,2,4)] by simp
  also have "\<dots> \<le> (\<Sum>n<length x. \<Sum>j<10. (?G n j)\<^sup>2) * (\<Sum>n<length x. \<Sum>j<10. (?c n j)\<^sup>2)"
    by (rule cauchy_schwarz_double)
  also have "\<dots> \<le> (1 / ?N) * (?K * ?Q)"
    by (intro mult_mono G2 logit_shift_sum_bound) (simp_all add: sum_nonneg)
  finally have sq: "?Q * ?Q \<le> (?K / ?N) * ?Q"
    by (simp add: power2_eq_square)
  show ?thesis
  proof (cases "?Q = 0")
    case True
    have "0 \<le> ?K"
      using batch_norm2_ge(1) [of x] by linarith
    with True N show ?thesis
      by simp
  next
    case False
    with Q have "0 < ?Q"
      by simp
    with sq show ?thesis
      by (rule mult_right_le_imp_le)
  qed
qed

lemma step_is_small:
  assumes "shape_ok s" "length ls = length x" "x \<noteq> []" "gradients s x ls = Inr (gw, gb)"
    and "0 \<le> rate" "rate * batch_norm2 x \<le> 1" "n < length x" "j < 10"
  shows "\<bar>rate * logit_shift x gw gb n j\<bar> \<le> 1"
proof -
  let ?N = "real (length x * 10)"
  let ?Q = "grad_norm2 gw gb"
  let ?K = "batch_norm2 x"
  let ?c = "logit_shift x gw gb n j"
  have N: "1 \<le> ?N"
    using assms(3) by (cases x) simp_all
  have K: "0 \<le> ?K"
    using batch_norm2_ge(1) [of x] by linarith
  have "?c\<^sup>2 \<le> ((\<Sum>i<784. (x ! n ! i)\<^sup>2) + 1) * ((\<Sum>i<784. (gw ! i ! j)\<^sup>2) + (gb ! j)\<^sup>2)"
    by (rule logit_shift_cs)
  also have "\<dots> \<le> ?K * ?Q"
    by (intro mult_mono batch_norm2_ge(2) grad_norm2_ge(2) assms(7,8) K)
      (simp add: sum_nonneg add_nonneg_nonneg)
  also have "\<dots> \<le> ?K * (?K / ?N)"
    by (intro mult_left_mono K grad_norm2_bound [OF assms(1-4)])
  also have "\<dots> \<le> ?K * (?K / 1)"
    using N K assms(3) by (intro mult_left_mono divide_left_mono) simp_all
  finally have c: "?c\<^sup>2 \<le> ?K\<^sup>2"
    by (simp add: power2_eq_square)
  have "(rate * ?c)\<^sup>2 = rate\<^sup>2 * ?c\<^sup>2"
    by (rule power_mult_distrib)
  also have "\<dots> \<le> rate\<^sup>2 * ?K\<^sup>2"
    using c by (intro mult_left_mono) simp_all
  also have "\<dots> = (rate * ?K)\<^sup>2"
    by (rule power_mult_distrib [symmetric])
  also have "\<dots> \<le> 1"
    using assms(5,6) K by (simp add: power_le_one)
  finally show ?thesis
    by (simp add: abs_square_le_1)
qed

lemma gradient_step_descends:
  assumes "shape_ok s" "is_matrix (length ls) 784 x" "ls \<noteq> []"
    and "gradients s x ls = Inr (gw, gb)" "update_ops rate s x ls = Inr s'"
    and "0 \<le> rate" "rate * batch_norm2 x \<le> 1"
  shows "objective s' x ls \<le> objective s x ls"
proof -
  let ?N = "real (length x * 10)"
  let ?Q = "grad_norm2 gw gb"
  let ?K = "batch_norm2 x"
  define SC where "SC = (\<Sum>n<length x. \<Sum>j<10. (logit_shift x gw gb n j)\<^sup>2)"
  have len: "length ls = length x" and ne: "x \<noteq> []"
    using assms(2,3) by (auto simp: is_matrix_def)
  have N: "1 \<le> ?N"
    using ne by (cases x) simp_all
  have Q: "0 \<le> ?Q"
    by (rule grad_norm2_ge)
  have "objective s' x ls - objective s x ls \<le>
         - rate * (\<Sum>n<length x. \<Sum>j<10. softmax_minus_onehot s x ls n j * logit_shift x gw gb n j)
         + rate\<^sup>2 / ?N * SC"
    unfolding SC_def using assms(1-5)
    by (rule objective_step_bound) (rule step_is_small [OF assms(1) len ne assms(4,6,7)])
  also have "(\<Sum>n<length x. \<Sum>j<10. softmax_minus_onehot s x ls n j * logit_shift x gw gb n j) = ?Q"
    using assms(1) len assms(4) by (rule gradient_inner_product)
  finally have d: "objective s' x ls - objective s x ls \<le> - rate * ?Q + rate\<^sup>2 / ?N * SC" .
  have "SC \<le> ?K * ?Q"
    unfolding SC_def by (rule logit_shift_sum_bound)
  then have "rate\<^sup>2 / ?N * SC \<le> rate\<^sup>2 / ?N * (?K * ?Q)"
    using N by (intro mult_left_mono) simp_all
  also have "\<dots> = (rate * ?K) * ((rate * ?Q) / ?N)"
    by (simp add: power2_eq_square)
  also have "\<dots> \<le> 1 * ((rate * ?Q) / ?N)"
    using assms(6,7) Q N by (intro mult_right_mono) simp_all
  also have "\<dots> \<le> 1 * ((rate * ?Q) / 1)"
    using assms(6) Q N ne by (intro mult_left_mono divide_left_mono) simp_all
  finally have "rate\<^sup>2 / ?N * SC \<le> rate * ?Q"
    by simp
  with d show ?thesis
    by linarith
qed

lemma loss_is_objective:
  assumes "shape_ok s" "length ls = length x" "x \<noteq> []"
  shows "loss s x ls = Inr (Val (objective s x ls))"
  using loss_value [OF assms] by (simp add: objective_def)

text \<open>
  In exact arithmetic: for every batch of \<open>n > 0\<close> images of 784 pixels with \<open>n\<close> labels
  there is a step size \<open>step > 0\<close> such that, for every smaller positive step size and
  from every parameter set of the notebook's shapes (optimal or not), one
  gradient-descent update succeeds and the objective on the same batch, evaluated again
  at the new parameters, is not larger than before.
\<close>

theorem small_step_does_not_increase:
  assumes "is_matrix (length ls) 784 x" and "ls \<noteq> []"
  shows "\<exists>step>0. \<forall>rate s. 0 < rate \<and> rate \<le> step \<and> shape_ok s \<longrightarrow>
           (\<exists>s' v v'. update_ops rate s x ls = Inr s' \<and>
              loss s x ls = Inr (Val v) \<and> loss s' x ls = Inr (Val v') \<and> v' \<le> v)"
proof -
  have len: "length ls = length x" and ne: "x \<noteq> []"
    using assms by (auto simp: is_matrix_def)
  have "1 \<le> real (length x)"
    using ne by (cases x) simp_all
  then have K: "0 < batch_norm2 x"
    using batch_norm2_ge(1) [of x] by linarith
  have "\<exists>s' v v'. update_ops rate s x ls = Inr s' \<and>
          loss s x ls = Inr (Val v) \<and> loss s' x ls = Inr (Val v') \<and> v' \<le> v"
    if r: "0 < rate" "rate \<le> 1 / batch_norm2 x" and ok: "shape_ok s" for rate s
  proof -
    obtain gw gb where g: "gradients s x ls = Inr (gw, gb)"
      using gradients_succeed [of x ls s] len by auto
    then obtain s' where u: "update_ops rate s x ls = Inr s'"
      by (auto simp: update_ops_def)
    have ok': "shape_ok s'"
      using ok u by (rule update_ops_shape)
    have "rate * batch_norm2 x \<le> 1"
      using r(2) K by (simp add: pos_le_divide_eq)
    then have "objective s' x ls \<le> objective s x ls"
      using gradient_step_descends [OF ok assms g u] r(1) by simp
    then show ?thesis
      using u loss_is_objective [OF ok len ne] loss_is_objective [OF ok' len ne] by blast
  qed
  then show ?thesis
    using K by (intro exI [of _ "1 / batch_norm2 x"]) simp
qed


theorem small_step_does_not_increase_witness:
  "is_matrix (length [0::int]) 784 [replicate 784 0] \<and> [0::int] \<noteq> [] \<and>
   (\<exists>step>0. \<forall>rate s. 0 < rate \<and> rate \<le> step \<and> shape_ok s \<longrightarrow>
      (\<exists>s' v v'. update_ops rate s [replicate 784 0] [0] = Inr s' \<and>
         loss s [replicate 784 0] [0] = Inr (Val v) \<and>
         loss s' [replicate 784 0] [0] = Inr (Val v') \<and> v' \<le> v))"
proof -
  have m: "is_matrix (length [0::int]) 784 [replicate 784 0]"
    by (simp add: is_matrix_def)
  have n: "[0::int] \<noteq> []"
    by simp
  show ?thesis
    using small_step_does_not_increase [OF m n] m by simp
qed

subsection \<open>Separable batches, in exact arithmetic\<close>

lemma param_inner_gradient:
  assumes "shape_ok s" "length ls = length x" "gradients s x ls = Inr (gw, gb)"
  shows "param_inner gw gb w2 b2 =
         (\<Sum>n<length x. \<Sum>j<10. softmax_minus_onehot s x ls n j * logit_shift x w2 b2 n j)"
proof -
  let ?G = "softmax_minus_onehot s x ls"
  have "(\<Sum>n<length x. \<Sum>j<10. ?G n j * logit_shift x w2 b2 n j) =
        (\<Sum>j<10. \<Sum>n<length x. ?G n j * logit_shift x w2 b2 n j)"
    by (rule sum.swap)
  also have "\<dots> = (\<Sum>j<10. (\<Sum>i<784. gw ! i ! j * w2 ! i ! j) + gb ! j * b2 ! j)"
  proof (rule sum.cong)
    fix j :: nat assume "j \<in> {..<10}"
    then have j: "j < 10" by simp
    have "(\<Sum>n<length x. ?G n j * logit_shift x w2 b2 n j) =
          (\<Sum>n<length x. (\<Sum>i<784. w2 ! i ! j * (x ! n ! i * ?G n j)) + b2 ! j * ?G n j)"
      by (rule sum.cong) (simp_all add: logit_shift_def sum_distrib_left algebra_simps)
    also have "\<dots> = (\<Sum>n<length x. \<Sum>i<784. w2 ! i ! j * (x ! n ! i * ?G n j))
                    + b2 ! j * (\<Sum>n<length x. ?G n j)"
      by (simp only: sum.distrib sum_distrib_left)
    also have "(\<Sum>n<length x. \<Sum>i<784. w2 ! i ! j * (x ! n ! i * ?G n j)) =
               (\<Sum>i<784. w2 ! i ! j * (\<Sum>n<length x. x ! n ! i * ?G n j))"
      by (subst sum.swap) (simp only: sum_distrib_left)
    also have "\<dots> = (\<Sum>i<784. w2 ! i ! j * gw ! i ! j)"
      by (rule sum.cong) (simp_all add: gradient_entries(1) [OF assms] j)
    also have "(\<Sum>n<length x. ?G n j) = gb ! j"
      using gradient_entries(2) [OF assms j] by simp
    finally show "(\<Sum>n<length x. ?G n j * logit_shift x w2 b2 n j) =
                  (\<Sum>i<784. gw ! i ! j * w2 ! i ! j) + gb ! j * b2 ! j"
      by (simp add: mult.commute)
  qed simp
  finally show ?thesis
    by (simp add: param_inner_def)
qed

lemma grad_norm2_inner: "grad_norm2 gw gb = param_inner gw gb gw gb"
  by (simp add: grad_norm2_def param_inner_def power2_eq_square)

lemma lin_is_logit_shift:
  assumes "shape_ok s" "n < length x" "length (x ! n) = 784" "j < 10"
  shows "lin s x ! n ! j = logit_shift x (weights s) (bias s) n j"
proof -
  have l: "length (weights s) = 784"
    using assms(1) by (simp add: shape_ok_def is_matrix_def)
  have "dot (x ! n) (col (weights s) j) = (\<Sum>i<784. x ! n ! i * col (weights s) j ! i)"
    using assms(3) l by (intro dot_as_sum) simp_all
  also have "\<dots> = (\<Sum>i<784. x ! n ! i * weights s ! i ! j)"
    by (rule sum.cong) (simp_all add: col_nth l)
  finally show ?thesis
    using lin_nth [OF assms(1,2,4)] by (simp add: logit_shift_def)
qed

lemma prob_sum_one:
  assumes "shape_ok s" "n < length x"
  shows "(\<Sum>j<10. prob s x ! n ! j) = 1"
proof -
  let ?S = "\<Sum>j<10. exp (lin s x ! n ! j)"
  have "(\<Sum>j<10. prob s x ! n ! j) = (\<Sum>j<10. exp (lin s x ! n ! j) / ?S)"
    by (rule sum.cong) (simp_all add: prob_nth assms)
  also have "\<dots> = ?S / ?S"
    by (simp only: sum_divide_distrib)
  finally show ?thesis
    using sum_exp_pos [of "\<lambda>j. lin s x ! n ! j"] by simp
qed

text \<open>Against any logits \<open>e\<close>, the gradient at \<open>lin\<close> weighs the gaps to the true label.\<close>

lemma softmax_minus_onehot_sum:
  assumes "shape_ok s" "n < length x" "0 \<le> ls ! n" "ls ! n < 10"
  shows "(\<Sum>j<10. softmax_minus_onehot s x ls n j * e j) =
         - (\<Sum>j<10. prob s x ! n ! j * (e (nat (ls ! n)) - e j)) / real (length x * 10)"
proof -
  let ?P = "\<lambda>j. prob s x ! n ! j"
  let ?N = "real (length x * 10)"
  have "(\<Sum>j<10. softmax_minus_onehot s x ls n j * e j) =
        (\<Sum>j<10. (?P j * e j - (if ls ! n = int j then 1 else 0) * e j) / ?N)"
    using assms(3,4)
    by (intro sum.cong refl) (simp add: softmax_minus_onehot_def hot_sum algebra_simps diff_divide_distrib)
  also have "\<dots> = ((\<Sum>j<10. ?P j * e j) - (\<Sum>j<10. (if ls ! n = int j then 1 else 0) * e j)) / ?N"
    by (simp only: sum_subtractf [symmetric] sum_divide_distrib)
  also have "(\<Sum>j<10. (if ls ! n = int j then 1 else 0) * e j) = e (nat (ls ! n))"
    using assms(3,4) by (simp add: hot_sum_nth)
  also have "e (nat (ls ! n)) = (\<Sum>j<10. ?P j * e (nat (ls ! n)))"
    by (simp add: sum_distrib_right [symmetric] prob_sum_one [OF assms(1,2)])
  also have "(\<Sum>j<10. ?P j * e j) - (\<Sum>j<10. ?P j * e (nat (ls ! n))) =
             - (\<Sum>j<10. ?P j * (e (nat (ls ! n)) - e j))"
    by (simp add: sum_subtractf [symmetric] algebra_simps sum_negf [symmetric])
  finally show ?thesis
    by simp
qed

lemma param_inner_gradient_gaps:
  assumes "shape_ok s" "length ls = length x" "gradients s x ls = Inr (gw, gb)"
    and "\<And>n. n < length x \<Longrightarrow> 0 \<le> ls ! n \<and> ls ! n < 10"
  shows "param_inner gw gb w2 b2 =
         - (\<Sum>n<length x. \<Sum>j<10. prob s x ! n ! j *
              (logit_shift x w2 b2 n (nat (ls ! n)) - logit_shift x w2 b2 n j))
           / real (length x * 10)"
proof -
  let ?e = "logit_shift x w2 b2"
  let ?N = "real (length x * 10)"
  have "param_inner gw gb w2 b2 =
        (\<Sum>n<length x. \<Sum>j<10. softmax_minus_onehot s x ls n j * ?e n j)"
    using assms(1-3) by (rule param_inner_gradient)
  also have "\<dots> = (\<Sum>n<length x.
        - (\<Sum>j<10. prob s x ! n ! j * (?e n (nat (ls ! n)) - ?e n j)) / ?N)"
  proof (rule sum.cong)
    fix n assume "n \<in> {..<length x}"
    then have n: "n < length x" by simp
    show "(\<Sum>j<10. softmax_minus_onehot s x ls n j * ?e n j) =
          - (\<Sum>j<10. prob s x ! n ! j * (?e n (nat (ls ! n)) - ?e n j)) / ?N"
      using assms(1) n assms(4) [OF n] by (intro softmax_minus_onehot_sum) simp_all
  qed simp
  also have "\<dots> = - (\<Sum>n<length x. \<Sum>j<10. prob s x ! n ! j * (?e n (nat (ls ! n)) - ?e n j)) / ?N"
    by (simp only: sum_negf [symmetric] sum_divide_distrib)
  finally show ?thesis .
qed

lemma exp_neg_times_le_one: "exp (- m) * m \<le> (1::real)"
proof -
  have "m \<le> exp m"
    using exp_ge_add_one_self [of m] by linarith
  then have "m / exp m \<le> 1"
    by (simp add: divide_le_eq_1)
  then show ?thesis
    by (simp add: exp_minus field_simps)
qed

lemma softmax_gap_bound:
  assumes "shape_ok s" "n < length x" "j < 10" "l < 10"
  shows "prob s x ! n ! j * (lin s x ! n ! l - lin s x ! n ! j) \<le> 1"
proof (cases "lin s x ! n ! l - lin s x ! n ! j \<le> 0")
  case True
  have "0 \<le> prob s x ! n ! j"
    using assms(1-3) by (rule prob_range)
  then have "prob s x ! n ! j * (lin s x ! n ! l - lin s x ! n ! j) \<le> 0"
    using True by (rule mult_nonneg_nonpos)
  then show ?thesis
    by simp
next
  case False
  let ?a = "\<lambda>k. lin s x ! n ! k"
  let ?S = "\<Sum>k<10. exp (?a k)"
  let ?m = "?a l - ?a j"
  from False have m: "0 < ?m" by simp
  have "exp (?a l) \<le> ?S"
    using assms(4) by (intro member_le_sum) simp_all
  then have "exp (?a j) / ?S \<le> exp (?a j) / exp (?a l)"
    using sum_exp_pos [of ?a] by (intro divide_left_mono) simp_all
  also have "\<dots> = exp (- ?m)"
    by (simp add: exp_diff exp_minus field_simps)
  finally have "prob s x ! n ! j \<le> exp (- ?m)"
    using assms(1-3) by (simp add: prob_nth)
  then have "prob s x ! n ! j * ?m \<le> exp (- ?m) * ?m"
    using m by (intro mult_right_mono) simp_all
  also have "\<dots> \<le> 1"
    by (rule exp_neg_times_le_one)
  finally show ?thesis .
qed

lemma param_inner_commute: "param_inner w1 b1 w2 b2 = param_inner w2 b2 w1 b1"
  by (simp add: param_inner_def mult.commute)

lemma param_inner_step:
  assumes "\<And>i j. i < 784 \<Longrightarrow> j < 10 \<Longrightarrow> w' ! i ! j = w ! i ! j - r * g ! i ! j"
    and "\<And>j. j < 10 \<Longrightarrow> b' ! j = b ! j - r * gb ! j"
  shows "param_inner w' b' w2 b2 = param_inner w b w2 b2 - r * param_inner g gb w2 b2"
proof -
  have "param_inner w' b' w2 b2 =
        (\<Sum>j<10. ((\<Sum>i<784. w ! i ! j * w2 ! i ! j) + b ! j * b2 ! j)
                   - r * ((\<Sum>i<784. g ! i ! j * w2 ! i ! j) + gb ! j * b2 ! j))"
    unfolding param_inner_def
  proof (rule sum.cong)
    fix j :: nat assume "j \<in> {..<10}"
    then have j: "j < 10" by simp
    have "(\<Sum>i<784. w' ! i ! j * w2 ! i ! j) =
          (\<Sum>i<784. w ! i ! j * w2 ! i ! j - r * (g ! i ! j * w2 ! i ! j))"
      by (rule sum.cong) (simp_all add: assms(1) j algebra_simps)
    also have "\<dots> = (\<Sum>i<784. w ! i ! j * w2 ! i ! j) - r * (\<Sum>i<784. g ! i ! j * w2 ! i ! j)"
      by (simp only: sum_subtractf sum_distrib_left)
    finally show "(\<Sum>i<784. w' ! i ! j * w2 ! i ! j) + b' ! j * b2 ! j =
          ((\<Sum>i<784. w ! i ! j * w2 ! i ! j) + b ! j * b2 ! j)
          - r * ((\<Sum>i<784. g ! i ! j * w2 ! i ! j) + gb ! j * b2 ! j)"
      by (simp add: assms(2) j algebra_simps)
  qed simp
  also have "\<dots> = param_inner w b w2 b2 - r * param_inner g gb w2 b2"
    by (simp only: param_inner_def sum_subtractf sum_distrib_left)
  finally show ?thesis .
qed

lemma step_progress:
  assumes "shape_ok s" "is_matrix (length ls) 784 x" "ls \<noteq> []"
    and lab: "\<And>n. n < length x \<Longrightarrow> 0 \<le> ls ! n \<and> ls ! n < 10"
    and "gradients s x ls = Inr (gw, gb)" "update_ops r s x ls = Inr s'" "0 \<le> r"
    and margin: "\<And>n j. n < length x \<Longrightarrow> j < 10 \<Longrightarrow> j \<noteq> nat (ls ! n) \<Longrightarrow>
                   logit_shift x w2 b2 n j + 1 \<le> logit_shift x w2 b2 n (nat (ls ! n))"
  shows "param_inner (weights s) (bias s) w2 b2
           + r / real (length x * 10) * (\<Sum>n<length x. 1 - prob s x ! n ! nat (ls ! n))
         \<le> param_inner (weights s') (bias s') w2 b2"
proof -
  let ?N = "real (length x * 10)"
  let ?e = "logit_shift x w2 b2"
  let ?P = "\<lambda>n j. prob s x ! n ! j"
  have len: "length ls = length x" and ne: "x \<noteq> []"
    using assms(2,3) by (auto simp: is_matrix_def)
  have N: "0 < ?N"
    using ne by (cases x) simp_all
  have row: "1 - ?P n (nat (ls ! n)) \<le> (\<Sum>j<10. ?P n j * (?e n (nat (ls ! n)) - ?e n j))"
    if n: "n < length x" for n
  proof -
    have l: "nat (ls ! n) < 10"
      using lab [OF n] by (simp add: nat_less_iff)
    have "(\<Sum>j<10. ?P n j * (if j = nat (ls ! n) then 0 else 1)) \<le>
          (\<Sum>j<10. ?P n j * (?e n (nat (ls ! n)) - ?e n j))"
    proof (rule sum_mono)
      fix j :: nat assume "j \<in> {..<10}"
      then have j: "j < 10" by simp
      have "0 \<le> ?P n j"
        using assms(1) n j by (rule prob_range)
      moreover have "(if j = nat (ls ! n) then 0 else 1) \<le> ?e n (nat (ls ! n)) - ?e n j"
        using margin [OF n j] by (cases "j = nat (ls ! n)") simp_all
      ultimately show "?P n j * (if j = nat (ls ! n) then 0 else 1) \<le>
                       ?P n j * (?e n (nat (ls ! n)) - ?e n j)"
        by (rule mult_left_mono [rotated])
    qed
    moreover have "(\<Sum>j<10. ?P n j * (if j = nat (ls ! n) then 0 else 1)) =
                   (\<Sum>j<10. ?P n j - (if j = nat (ls ! n) then ?P n j else 0))"
      by (rule sum.cong) simp_all
    moreover have "\<dots> = 1 - ?P n (nat (ls ! n))"
      using l by (simp add: sum_subtractf prob_sum_one [OF assms(1) n] sum.delta)
    ultimately show ?thesis
      by linarith
  qed
  have "param_inner (weights s') (bias s') w2 b2 =
        param_inner (weights s) (bias s) w2 b2 - r * param_inner gw gb w2 b2"
    by (rule param_inner_step) (rule update_ops_nth [OF assms(1,5,6)], assumption+)+
  also have "param_inner gw gb w2 b2 =
        - (\<Sum>n<length x. \<Sum>j<10. ?P n j * (?e n (nat (ls ! n)) - ?e n j)) / ?N"
    using assms(1) len assms(5) lab by (rule param_inner_gradient_gaps)
  finally have e: "param_inner (weights s') (bias s') w2 b2 =
        param_inner (weights s) (bias s) w2 b2
        + r / ?N * (\<Sum>n<length x. \<Sum>j<10. ?P n j * (?e n (nat (ls ! n)) - ?e n j))"
    by simp
  have "(\<Sum>n<length x. 1 - ?P n (nat (ls ! n))) \<le>
        (\<Sum>n<length x. \<Sum>j<10. ?P n j * (?e n (nat (ls ! n)) - ?e n j))"
    by (intro sum_mono row) simp
  then have "r / ?N * (\<Sum>n<length x. 1 - ?P n (nat (ls ! n))) \<le>
        r / ?N * (\<Sum>n<length x. \<Sum>j<10. ?P n j * (?e n (nat (ls ! n)) - ?e n j))"
    using N assms(7) by (intro mult_left_mono) simp_all
  with e show ?thesis
    by linarith
qed

lemma step_norm:
  assumes "shape_ok s" "is_matrix (length ls) 784 x" "ls \<noteq> []"
    and lab: "\<And>n. n < length x \<Longrightarrow> 0 \<le> ls ! n \<and> ls ! n < 10"
    and "gradients s x ls = Inr (gw, gb)" "update_ops r s x ls = Inr s'" "0 \<le> r"
  shows "param_inner (weights s') (bias s') (weights s') (bias s') \<le>
         param_inner (weights s) (bias s) (weights s) (bias s)
           + 2 * r + r\<^sup>2 * (batch_norm2 x / real (length x * 10))"
proof -
  let ?N = "real (length x * 10)"
  let ?P = "\<lambda>n j. prob s x ! n ! j"
  let ?W = "weights s" and ?b = "bias s" and ?W' = "weights s'" and ?b' = "bias s'"
  have len: "length ls = length x" and ne: "x \<noteq> []"
    and rows: "\<And>n. n < length x \<Longrightarrow> length (x ! n) = 784"
    using assms(2,3) by (auto simp: is_matrix_def)
  have N: "0 < ?N" and N': "?N = real (length x) * 10"
    using ne by (cases x; simp)+
  have st: "\<And>w2 b2. param_inner ?W' ?b' w2 b2 = param_inner ?W ?b w2 b2 - r * param_inner gw gb w2 b2"
    by (rule param_inner_step) (rule update_ops_nth [OF assms(1,5,6)], assumption+)+
  have "param_inner ?W' ?b' ?W' ?b' = param_inner ?W ?b ?W' ?b' - r * param_inner gw gb ?W' ?b'"
    by (rule st)
  also have "param_inner ?W ?b ?W' ?b' = param_inner ?W ?b ?W ?b - r * param_inner gw gb ?W ?b"
    by (subst param_inner_commute) (rule st)
  also have "param_inner gw gb ?W' ?b' = param_inner gw gb ?W ?b - r * param_inner gw gb gw gb"
    by (subst param_inner_commute, subst st) (simp add: param_inner_commute)
  finally have e: "param_inner ?W' ?b' ?W' ?b' =
      param_inner ?W ?b ?W ?b + 2 * r * (- param_inner gw gb ?W ?b) + r\<^sup>2 * grad_norm2 gw gb"
    by (simp add: grad_norm2_inner power2_eq_square algebra_simps)
  have "- param_inner gw gb ?W ?b =
        (\<Sum>n<length x. \<Sum>j<10. ?P n j *
            (logit_shift x ?W ?b n (nat (ls ! n)) - logit_shift x ?W ?b n j)) / ?N"
    using param_inner_gradient_gaps [OF assms(1) len assms(5) lab, of ?W ?b] by simp
  also have "\<dots> \<le> (\<Sum>n<length x. \<Sum>j<10::nat. 1) / ?N"
  proof (intro divide_right_mono sum_mono)
    fix n j :: nat assume "n \<in> {..<length x}" "j \<in> {..<10}"
    then have n: "n < length x" and j: "j < 10" by simp_all
    have l: "nat (ls ! n) < 10"
      using lab [OF n] by (simp add: nat_less_iff)
    show "?P n j * (logit_shift x ?W ?b n (nat (ls ! n)) - logit_shift x ?W ?b n j) \<le> 1"
      using softmax_gap_bound [OF assms(1) n j l]
      by (simp add: lin_is_logit_shift [OF assms(1) n rows [OF n]] j l)
  qed (use N in simp)
  also have "\<dots> = 1"
    using N by (simp add: N')
  finally have a: "- param_inner gw gb ?W ?b \<le> 1" .
  have "2 * r * (- param_inner gw gb ?W ?b) \<le> 2 * r * 1"
    using a assms(7) by (intro mult_left_mono) simp_all
  moreover have "r\<^sup>2 * grad_norm2 gw gb \<le> r\<^sup>2 * (batch_norm2 x / ?N)"
    by (intro mult_left_mono grad_norm2_bound [OF assms(1) len ne assms(5)]) simp
  ultimately show ?thesis
    using e by linarith
qed

lemma argmax_aux_max:
  assumes "best < i" "drop i xs = vs" "i \<le> length xs" "bv = xs ! best" "\<forall>j<i. xs ! j \<le> bv"
  shows "argmax_aux best bv i vs < length xs \<and>
         (\<forall>j<length xs. xs ! j \<le> xs ! argmax_aux best bv i vs)"
  using assms
proof (induction vs arbitrary: best bv i)
  case Nil
  then have "length xs = i"
    by simp
  with Nil show ?case
    by simp
next
  case (Cons v vs)
  from Cons.prems(2) have i: "i < length xs"
    by (metis drop_all leI list.distinct(1))
  from Cons.prems(2) have v: "xs ! i = v" and d: "drop (Suc i) xs = vs"
    using i by (metis Cons_nth_drop_Suc list.inject)+
  show ?case
  proof (cases "bv < v")
    case True
    have "\<forall>j<Suc i. xs ! j \<le> v"
      using Cons.prems(5) True v by (auto simp: less_Suc_eq intro: less_imp_le order_trans)
    then have "argmax_aux i v (Suc i) vs < length xs \<and>
         (\<forall>j<length xs. xs ! j \<le> xs ! argmax_aux i v (Suc i) vs)"
      using d i v by (intro Cons.IH) simp_all
    with True show ?thesis
      by simp
  next
    case False
    have "\<forall>j<Suc i. xs ! j \<le> bv"
      using Cons.prems(5) False v by (auto simp: less_Suc_eq)
    then have "argmax_aux best bv (Suc i) vs < length xs \<and>
         (\<forall>j<length xs. xs ! j \<le> xs ! argmax_aux best bv (Suc i) vs)"
      using d i Cons.prems(1,4) by (intro Cons.IH) simp_all
    with False show ?thesis
      by simp
  qed
qed

lemma argmax_max:
  assumes "xs \<noteq> []"
  shows "argmax xs < length xs" and "j < length xs \<Longrightarrow> xs ! j \<le> xs ! argmax xs"
proof -
  from assms obtain v vs where xs: "xs = v # vs"
    by (cases xs) auto
  have "argmax_aux 0 v 1 vs < length xs \<and> (\<forall>j<length xs. xs ! j \<le> xs ! argmax_aux 0 v 1 vs)"
    by (rule argmax_aux_max) (simp_all add: xs)
  then show "argmax xs < length xs" and "j < length xs \<Longrightarrow> xs ! j \<le> xs ! argmax xs"
    by (simp_all add: xs argmax_def)
qed

text \<open>A sample that is classified wrongly has at most probability 1/2 on its label.\<close>

lemma misclassified_prob:
  assumes "shape_ok s" "n < length x" "0 \<le> l" "l < 10" "pred s x ! n \<noteq> l"
  shows "prob s x ! n ! nat l \<le> 1 / 2"
proof -
  let ?row = "log_prob s x ! n"
  let ?a = "\<lambda>k. lin s x ! n ! k"
  let ?S = "\<Sum>k<10. exp (?a k)"
  define k where "k = argmax ?row"
  have len: "length ?row = 10"
    using assms(1,2) by (rule log_prob_nth_length)
  then have ne: "?row \<noteq> []"
    by auto
  have k: "k < 10"
    using argmax_max(1) [OF ne] len by (simp add: k_def)
  have l: "nat l < 10"
    using assms(3,4) by (simp add: nat_less_iff)
  have "pred s x ! n = int k"
    using assms(2) by (simp add: pred_def k_def)
  with assms(3,5) have kl: "k \<noteq> nat l"
    by auto
  have "?row ! nat l \<le> ?row ! k"
    unfolding k_def using l len by (intro argmax_max(2) [OF ne]) simp
  then have "?a (nat l) \<le> ?a k"
    using assms(1,2) k l by (simp add: log_prob_nth)
  then have e: "exp (?a (nat l)) \<le> exp (?a k)"
    by simp
  have "(\<Sum>j\<in>{nat l, k}. exp (?a j)) \<le> ?S"
    using k l by (intro sum_mono2) auto
  then have "exp (?a (nat l)) + exp (?a k) \<le> ?S"
    using kl by simp
  with e have "2 * exp (?a (nat l)) \<le> ?S"
    by linarith
  moreover have "0 < ?S"
    by (rule sum_exp_pos)
  ultimately have "exp (?a (nat l)) / ?S \<le> 1 / 2"
    by (simp add: field_simps)
  then show ?thesis
    using assms(1,2) l by (simp add: prob_nth)
qed

lemma param_inner_cs:
  "(param_inner w1 b1 w2 b2)\<^sup>2 \<le> param_inner w1 b1 w1 b1 * param_inner w2 b2 w2 b2"
proof -
  let ?u = "\<lambda>j i. if i < 784 then w1 ! i ! j else b1 ! j"
  let ?v = "\<lambda>j i. if i < 784 then w2 ! i ! j else b2 ! j"
  have split: "(\<Sum>i<Suc 784. (if i < 784 then f i else c) * (if i < 784 then g i else d)) =
               (\<Sum>i<784. f i * g i) + c * d" for f g :: "nat \<Rightarrow> real" and c d
  proof -
    have "(\<Sum>i<784. (if i < 784 then f i else c) * (if i < 784 then g i else d)) = (\<Sum>i<784. f i * g i)"
      by (rule sum.cong) simp_all
    then show ?thesis
      by (simp only: sum.lessThan_Suc) simp
  qed
  have 1: "(\<Sum>j<10. \<Sum>i<Suc 784. ?u j i * ?v j i) = param_inner w1 b1 w2 b2"
    by (simp only: split param_inner_def)
  have 2: "(\<Sum>j<10. \<Sum>i<Suc 784. (?u j i)\<^sup>2) = param_inner w1 b1 w1 b1"
    by (simp only: power2_eq_square split param_inner_def)
  have 3: "(\<Sum>j<10. \<Sum>i<Suc 784. (?v j i)\<^sup>2) = param_inner w2 b2 w2 b2"
    by (simp only: power2_eq_square split param_inner_def)
  show ?thesis
    using cauchy_schwarz_double [where u = ?u and v = ?v and A = "{..<10}" and B = "{..<Suc 784}"]
    unfolding 1 2 3 .
qed

lemma gd_step_eq:
  assumes "length ls = length x"
  shows "update_ops learning_rate s x ls = Inr (gd_step x ls s)"
  using update_ops_succeed [of x ls learning_rate s] assms by (auto simp: gd_step_def)

lemma shape_ok_gd_step:
  assumes "shape_ok s" "length ls = length x"
  shows "shape_ok (gd_step x ls s)"
  using assms(1) gd_step_eq [OF assms(2)] by (rule update_ops_shape)

lemma wrong_sample_sum:
  assumes "shape_ok s" "n < length x" "pred s x ! n \<noteq> ls ! n"
    and lab: "\<And>n. n < length x \<Longrightarrow> 0 \<le> ls ! n \<and> ls ! n < 10"
  shows "1 / 2 \<le> (\<Sum>n<length x. 1 - prob s x ! n ! nat (ls ! n))"
proof -
  have "1 / 2 \<le> 1 - prob s x ! n ! nat (ls ! n)"
    using misclassified_prob [OF assms(1,2) _ _ assms(3)] lab [OF assms(2)] by simp
  also have "\<dots> \<le> (\<Sum>n<length x. 1 - prob s x ! n ! nat (ls ! n))"
  proof (rule member_le_sum)
    show "n \<in> {..<length x}"
      using assms(2) by simp
    show "0 \<le> 1 - prob s x ! m ! nat (ls ! m)" if "m \<in> {..<length x} - {n}" for m
    proof -
      have m: "m < length x"
        using that by simp
      have "nat (ls ! m) < 10"
        using lab [OF m] by (simp add: nat_less_iff)
      then have "prob s x ! m ! nat (ls ! m) \<le> 1"
        using assms(1) m by (intro prob_range)
      then show ?thesis
        by simp
    qed
  qed simp
  finally show ?thesis .
qed

lemma real_Suc_mult: "real (Suc T) * c = real T * c + c"
  by (simp add: algebra_simps)

lemma iterate_bounds:
  assumes "shape_ok s" "is_matrix (length ls) 784 x" "ls \<noteq> []"
    and lab: "\<And>n. n < length x \<Longrightarrow> 0 \<le> ls ! n \<and> ls ! n < 10"
    and margin: "\<And>n j. n < length x \<Longrightarrow> j < 10 \<Longrightarrow> j \<noteq> nat (ls ! n) \<Longrightarrow>
                   logit_shift x w2 b2 n j + 1 \<le> logit_shift x w2 b2 n (nat (ls ! n))"
    and wrong: "\<And>t. t < T \<Longrightarrow> \<exists>n<length x. pred ((gd_step x ls ^^ t) s) x ! n \<noteq> ls ! n"
  defines "th \<equiv> (gd_step x ls ^^ T) s"
  shows "shape_ok th"
    and "param_inner (weights s) (bias s) w2 b2
           + real T * (learning_rate / real (length x * 10) * (1 / 2))
         \<le> param_inner (weights th) (bias th) w2 b2"
    and "param_inner (weights th) (bias th) (weights th) (bias th) \<le>
         param_inner (weights s) (bias s) (weights s) (bias s)
           + real T * (2 * learning_rate + learning_rate\<^sup>2 * (batch_norm2 x / real (length x * 10)))"
  using wrong unfolding th_def
proof (induction T)
  case 0
  {
    case 1 show ?case using assms(1) by simp
  next
    case 2 show ?case by simp
  next
    case 3 show ?case by simp
  }
next
  case (Suc T)
  let ?th = "(gd_step x ls ^^ T) s"
  let ?N = "real (length x * 10)"
  have len: "length ls = length x" and ne: "x \<noteq> []"
    using assms(2,3) by (auto simp: is_matrix_def)
  have N: "0 < ?N"
    using ne by (cases x) simp_all
  have r: "0 \<le> learning_rate"
    by (simp add: learning_rate_def)
  {
    case 1
    have ok: "shape_ok ?th"
      using 1 by (intro Suc.IH(1)) simp
    then show ?case
      using len by (simp add: shape_ok_gd_step)
  next
    case 2
    have ok: "shape_ok ?th"
      using 2 by (intro Suc.IH(1)) simp
    obtain gw gb where g: "gradients ?th x ls = Inr (gw, gb)"
      using gradients_succeed [of x ls ?th] len by auto
    obtain n where n: "n < length x" "pred ?th x ! n \<noteq> ls ! n"
      using 2 [of T] by auto
    have "1 / 2 \<le> (\<Sum>n<length x. 1 - prob ?th x ! n ! nat (ls ! n))"
      using ok n lab by (rule wrong_sample_sum)
    then have "learning_rate / ?N * (1 / 2) \<le>
               learning_rate / ?N * (\<Sum>n<length x. 1 - prob ?th x ! n ! nat (ls ! n))"
      using r N by (intro mult_left_mono) simp_all
    moreover have "param_inner (weights ?th) (bias ?th) w2 b2
           + learning_rate / ?N * (\<Sum>n<length x. 1 - prob ?th x ! n ! nat (ls ! n))
         \<le> param_inner (weights (gd_step x ls ?th)) (bias (gd_step x ls ?th)) w2 b2"
      using ok assms(2,3) lab g gd_step_eq [OF len] r margin by (rule step_progress)
    moreover have "param_inner (weights s) (bias s) w2 b2 + real T * (learning_rate / ?N * (1 / 2))
         \<le> param_inner (weights ?th) (bias ?th) w2 b2"
      using 2 by (intro Suc.IH(2)) simp
    moreover have "real (Suc T) * (learning_rate / ?N * (1 / 2)) =
        real T * (learning_rate / ?N * (1 / 2)) + learning_rate / ?N * (1 / 2)"
      by (rule real_Suc_mult)
    ultimately show ?case
      unfolding funpow.simps comp_apply by linarith
  next
    case 3
    have ok: "shape_ok ?th"
      using 3 by (intro Suc.IH(1)) simp
    obtain gw gb where g: "gradients ?th x ls = Inr (gw, gb)"
      using gradients_succeed [of x ls ?th] len by auto
    have "param_inner (weights (gd_step x ls ?th)) (bias (gd_step x ls ?th))
            (weights (gd_step x ls ?th)) (bias (gd_step x ls ?th)) \<le>
          param_inner (weights ?th) (bias ?th) (weights ?th) (bias ?th)
           + 2 * learning_rate + learning_rate\<^sup>2 * (batch_norm2 x / ?N)"
      using ok assms(2,3) lab g gd_step_eq [OF len] r by (rule step_norm)
    moreover have "param_inner (weights ?th) (bias ?th) (weights ?th) (bias ?th) \<le>
         param_inner (weights s) (bias s) (weights s) (bias s)
           + real T * (2 * learning_rate + learning_rate\<^sup>2 * (batch_norm2 x / ?N))"
      using 3 by (intro Suc.IH(3)) simp
    moreover have "real (Suc T) * (2 * learning_rate + learning_rate\<^sup>2 * (batch_norm2 x / ?N)) =
        real T * (2 * learning_rate + learning_rate\<^sup>2 * (batch_norm2 x / ?N))
        + (2 * learning_rate + learning_rate\<^sup>2 * (batch_norm2 x / ?N))"
      by (rule real_Suc_mult)
    ultimately show ?case
      unfolding funpow.simps comp_apply by linarith
  }
qed

lemma growth_contradiction:
  fixes a b M c0 A u v w :: real
  assumes "0 < c0" "0 \<le> A" "0 \<le> b" "0 \<le> M" "1 \<le> u"
    and big: "2 * \<bar>a\<bar> * c0 + A * M + b * M < u * c0\<^sup>2"
    and v: "a + u * c0 \<le> v" and w: "w \<le> b + u * A" and cs: "v\<^sup>2 \<le> w * M"
  shows False
proof -
  define d where "d = u * c0 - \<bar>a\<bar>"
  have "0 \<le> A * M + b * M"
    using assms(2-4) by simp
  with big have "(2 * \<bar>a\<bar>) * c0 < (u * c0) * c0"
    by (simp add: power2_eq_square algebra_simps)
  then have "2 * \<bar>a\<bar> < u * c0"
    using assms(1) by (simp only: mult_less_cancel_right_pos)
  then have d: "0 \<le> d" "d \<le> v"
    using v unfolding d_def by linarith+
  then have "d\<^sup>2 \<le> v\<^sup>2"
    by (intro power_mono)
  also have "\<dots> \<le> (b + u * A) * M"
    using cs w assms(4) by (meson mult_right_mono order_trans)
  also have "\<dots> = b * M + u * (A * M)"
    by (simp add: algebra_simps)
  also have "\<dots> \<le> u * (b * M) + u * (A * M)"
  proof -
    have "1 * (b * M) \<le> u * (b * M)"
      using assms(3-5) by (intro mult_right_mono) simp_all
    then show ?thesis
      by simp
  qed
  finally have 1: "d\<^sup>2 \<le> u * (b * M) + u * (A * M)" .
  have "d\<^sup>2 = u * (u * c0\<^sup>2) - u * (2 * \<bar>a\<bar> * c0) + a\<^sup>2"
    by (simp add: d_def power2_eq_square algebra_simps)
  moreover have "0 \<le> a\<^sup>2"
    by simp
  ultimately have "u * (u * c0\<^sup>2) - u * (2 * \<bar>a\<bar> * c0) \<le> u * (b * M) + u * (A * M)"
    using 1 by linarith
  then have "u * (u * c0\<^sup>2 - (2 * \<bar>a\<bar> * c0 + A * M + b * M)) \<le> 0"
    by (simp add: algebra_simps)
  moreover have "0 < u * (u * c0\<^sup>2 - (2 * \<bar>a\<bar> * c0 + A * M + b * M))"
    using assms(5) big by (intro mult_pos_pos) simp_all
  ultimately show False
    by linarith
qed

lemma param_inner_self_nonneg: "0 \<le> param_inner w b w b"
  unfolding param_inner_def by (intro sum_nonneg add_nonneg_nonneg) simp_all

lemma eventually_correct:
  assumes "shape_ok s" "is_matrix (length ls) 784 x" "ls \<noteq> []"
    and lab: "\<And>n. n < length x \<Longrightarrow> 0 \<le> ls ! n \<and> ls ! n < 10"
    and margin: "\<And>n j. n < length x \<Longrightarrow> j < 10 \<Longrightarrow> j \<noteq> nat (ls ! n) \<Longrightarrow>
                   logit_shift x w2 b2 n j + 1 \<le> logit_shift x w2 b2 n (nat (ls ! n))"
  shows "\<exists>T. \<forall>n<length x. pred ((gd_step x ls ^^ T) s) x ! n = ls ! n"
proof (rule ccontr)
  assume "\<not> (\<exists>T. \<forall>n<length x. pred ((gd_step x ls ^^ T) s) x ! n = ls ! n)"
  then have wrong: "\<exists>n<length x. pred ((gd_step x ls ^^ t) s) x ! n \<noteq> ls ! n" for t
    by auto
  let ?N = "real (length x * 10)"
  define c0 where "c0 = learning_rate / ?N * (1 / 2)"
  define A where "A = 2 * learning_rate + learning_rate\<^sup>2 * (batch_norm2 x / ?N)"
  define a where "a = param_inner (weights s) (bias s) w2 b2"
  define b where "b = param_inner (weights s) (bias s) (weights s) (bias s)"
  define M where "M = param_inner w2 b2 w2 b2"
  have ne: "x \<noteq> []"
    using assms(2,3) by (auto simp: is_matrix_def)
  have N: "0 < ?N"
    using ne by (cases x) simp_all
  have K: "0 \<le> batch_norm2 x"
    using batch_norm2_ge(1) [of x] by linarith
  have c0: "0 < c0"
    using N by (simp add: c0_def learning_rate_def)
  have A: "0 \<le> A"
    using N K by (simp add: A_def learning_rate_def)
  have b: "0 \<le> b" and M: "0 \<le> M"
    by (simp_all add: b_def M_def param_inner_self_nonneg)
  obtain T :: nat where T: "max 1 ((2 * \<bar>a\<bar> * c0 + A * M + b * M) / c0\<^sup>2) < real T"
    using reals_Archimedean2 by blast
  define th where "th = (gd_step x ls ^^ T) s"
  have u: "1 \<le> real T"
    using T by simp
  have "(2 * \<bar>a\<bar> * c0 + A * M + b * M) / c0\<^sup>2 < real T"
    using T by simp
  then have big: "2 * \<bar>a\<bar> * c0 + A * M + b * M < real T * c0\<^sup>2"
    using c0 by (simp add: pos_divide_less_eq)
  have v: "a + real T * c0 \<le> param_inner (weights th) (bias th) w2 b2"
    unfolding a_def c0_def th_def
    using assms(1-3) lab margin wrong by (rule iterate_bounds(2))
  have w: "param_inner (weights th) (bias th) (weights th) (bias th) \<le> b + real T * A"
    unfolding b_def A_def th_def
    using assms(1-3) lab margin wrong by (rule iterate_bounds(3))
  have cs: "(param_inner (weights th) (bias th) w2 b2)\<^sup>2 \<le>
            param_inner (weights th) (bias th) (weights th) (bias th) * M"
    unfolding M_def by (rule param_inner_cs)
  show False
    using c0 A b M u big v w cs by (rule growth_contradiction)
qed

lemma rows_of_two:
  assumes "length x1 = 784" "length x2 = 784"
  shows "rows_of 2 784 (x1 @ x2) = [x1, x2]"
proof -
  have "[0..<2] = [0, Suc 0]"
    by (simp add: numeral_2_eq_2)
  then show ?thesis
    using assms by (simp add: rows_of_def)
qed

lemma two_sample_update:
  assumes "length x1 = 784" "length x2 = 784"
  shows "session_run Update_ops (batch_feed (two_sample_dataset x1 x2 l1 l2) i) s =
         Inr (Updated, gd_step [x1, x2] [l1, l2] s)"
proof -
  have "update_ops learning_rate s [x1, x2] [l1, l2] = Inr (gd_step [x1, x2] [l1, l2] s)"
    by (rule gd_step_eq) simp
  then show ?thesis
    using rows_of_two [OF assms]
    by (simp add: batch_feed_def two_sample_dataset_def two_samples_def feed_inp_Some
        feed_labels_def)
qed

lemma two_sample_steps:
  assumes "length x1 = 784" "length x2 = 784"
  shows "optimizer_steps (two_sample_dataset x1 x2 l1 l2) i T s =
         Inr ((gd_step [x1, x2] [l1, l2] ^^ T) s)"
proof (induction T arbitrary: i s)
  case 0
  show ?case by simp
next
  case (Suc T)
  show ?case
    by (simp add: two_sample_update [OF assms] Suc.IH funpow_swap1 del: session_run.simps)
qed

lemma two_sample_loop:
  assumes "length x1 = 784" "length x2 = 784"
  shows "\<exists>st'. training_loop (two_sample_dataset x1 x2 l1 l2) T 0 st = Inr st' \<and>
           session st' = (gd_step [x1, x2] [l1, l2] ^^ T) (session st)"
proof -
  let ?D = "two_sample_dataset x1 x2 l1 l2"
  have b: "\<forall>j. 0 \<le> j \<and> j < T \<longrightarrow> wf_batch (next_batch ?D j)"
    using assms by (simp add: two_sample_dataset_def two_samples_def wf_batch_def wf_ndarray_def)
  have t: "length (data (test_images ?D)) mod 784 = 0"
    using assms by (simp add: two_sample_dataset_def two_samples_def)
  obtain st' where "training_loop ?D T 0 st = Inr st'"
    and "optimizer_steps ?D 0 (T - 0) (session st) = Inr (session st')"
    using training_loop_steps [OF b t, of st] by blast
  then show ?thesis
    by (simp add: two_sample_steps [OF assms])
qed

lemma np_mean_all_equal: "r \<noteq> [] \<Longrightarrow> np_mean (np_equal r r) = Val 1"
proof -
  assume r: "r \<noteq> []"
  have "map2 (=) r r = replicate (length r) True"
    by (induction r) simp_all
  then show ?thesis
    using r by (simp add: np_equal_def np_mean_def)
qed

lemma two_sample_evaluate:
  assumes "length x1 = 784" "length x2 = 784"
    and "\<forall>n<length [x1, x2]. pred s [x1, x2] ! n = [l1, l2] ! n"
  shows "evaluate (two_samples x1 x2) [l1, l2] Pred s = Inr (Val 1, s)"
proof -
  have "pred s [x1, x2] = [l1, l2]"
    using assms(3) by (intro nth_equalityI) simp_all
  then show ?thesis
    using assms(1,2) rows_of_two [OF assms(1,2)] np_mean_all_equal [of "[l1, l2]"]
    by (simp add: evaluate_Pred two_samples_def)
qed

text \<open>
  From a separating hyperplane \<open>(w, c)\<close> of the two samples, parameters whose logits
  prefer the right label of either sample by a margin of at least 1.
\<close>

lemma two_sample_margin:
  assumes "length x1 = 784" "length x2 = 784" "length w = 784"
    and "0 \<le> l1" "l1 < 10" "0 \<le> l2" "l2 < 10" "l1 \<noteq> l2"
    and "0 < dot x1 w + c" "dot x2 w + c < 0"
  shows "\<exists>w2 b2. \<forall>n<length [x1, x2]. \<forall>j<10. j \<noteq> nat ([l1, l2] ! n) \<longrightarrow>
           logit_shift [x1, x2] w2 b2 n j + 1 \<le> logit_shift [x1, x2] w2 b2 n (nat ([l1, l2] ! n))"
proof -
  define h1 where "h1 = dot x1 w + c"
  define h2 where "h2 = dot x2 w + c"
  define al where "al = 1 / min h1 (- h2)"
  define col where "col = (\<lambda>j v. if j = nat l1 then al * v else if j = nat l2 then - (al * v) else 0)"
  define w2 where "w2 = map (\<lambda>i. map (\<lambda>j. col j (w ! i)) [0..<10]) [0..<784]"
  define b2 where "b2 = map (\<lambda>j. col j c) [0..<10]"
  have g: "0 < min h1 (- h2)"
    using assms(9,10) by (simp add: h1_def h2_def)
  then have al: "0 < al"
    by (simp add: al_def)
  have a1: "1 \<le> al * h1"
  proof -
    have "al * min h1 (- h2) \<le> al * h1"
      using al by (intro mult_left_mono) simp_all
    then show ?thesis
      using g by (simp add: al_def)
  qed
  have a2: "1 \<le> al * (- h2)"
  proof -
    have "al * min h1 (- h2) \<le> al * (- h2)"
      using al by (intro mult_left_mono) simp_all
    then show ?thesis
      using g by (simp add: al_def)
  qed
  have ll: "nat l1 \<noteq> nat l2" "nat l1 < 10" "nat l2 < 10"
    using assms(4-8) by (simp_all add: nat_less_iff)
  have lin_col: "(\<Sum>i<784. u ! i * col j (w ! i)) + col j c = col j (dot u w + c)"
    if "length u = 784" for u j
  proof -
    have d: "dot u w = (\<Sum>i<784. u ! i * w ! i)"
      using that assms(3) by (intro dot_as_sum)
    show ?thesis
      unfolding col_def d
      by (simp add: sum_distrib_left sum_negf algebra_simps)
  qed
  have e: "logit_shift [x1, x2] w2 b2 n j = col j (dot ([x1, x2] ! n) w + c)"
    if "n < 2" "j < 10" for n j
  proof -
    have "length ([x1, x2] ! n) = 784"
      using that(1) assms(1,2) by (cases n) (simp_all add: less_Suc_eq numeral_2_eq_2)
    from lin_col [OF this, of j] show ?thesis
      using that(2) by (simp add: logit_shift_def w2_def b2_def)
  qed
  have "logit_shift [x1, x2] w2 b2 n j + 1 \<le> logit_shift [x1, x2] w2 b2 n (nat ([l1, l2] ! n))"
    if n: "n < 2" and j: "j < 10" "j \<noteq> nat ([l1, l2] ! n)" for n j
  proof (cases "n = 0")
    case True
    then have "logit_shift [x1, x2] w2 b2 n (nat ([l1, l2] ! n)) = al * h1"
      using e [of n "nat l1"] ll by (simp add: col_def h1_def)
    moreover have "logit_shift [x1, x2] w2 b2 n j = (if j = nat l2 then - (al * h1) else 0)"
      using e [of n j] j True by (simp add: col_def h1_def)
    ultimately show ?thesis
      using a1 by simp
  next
    case False
    with n have n1: "n = 1"
      by simp
    then have "logit_shift [x1, x2] w2 b2 n (nat ([l1, l2] ! n)) = - (al * h2)"
      using e [of n "nat l2"] ll by (simp add: col_def h2_def)
    moreover have "logit_shift [x1, x2] w2 b2 n j = (if j = nat l1 then al * h2 else 0)"
      using e [of n j] j n1 by (simp add: col_def h2_def)
    ultimately show ?thesis
      using a2 by simp
  qed
  then show ?thesis
    by (intro exI [of _ w2] exI [of _ b2]) simp
qed

lemma shape_ok_funpow:
  assumes "shape_ok s" "length ls = length x"
  shows "shape_ok ((gd_step x ls ^^ T) s)"
  by (induction T) (simp_all add: assms shape_ok_gd_step)

text \<open>
  In exact arithmetic: two samples of 784 pixels with two different labels among
  \<open>0..9\<close>, separated by a hyperplane \<open>(w, c)\<close>. From every parameter set of the notebook's
  shapes, and beyond every bound \<open>T0\<close>, there is an iteration count \<open>T\<close> such that the
  training loop, run for \<open>T\<close> iterations on this batch with the rate of the notebook,
  ends normally and \<^verbatim>\<open>evaluate\<close> on the same two samples then returns 1, that is 100%.
\<close>

theorem separable_batch_reaches_full_accuracy:
  assumes "shape_ok s"
    and "length x1 = 784" and "length x2 = 784"
    and "0 \<le> l1" and "l1 < 10" and "0 \<le> l2" and "l2 < 10" and "l1 \<noteq> l2"
    and "length w = 784" and "0 < dot x1 w + c" and "dot x2 w + c < 0"
  shows "\<exists>T st'. T0 \<le> T \<and>
           training_loop (two_sample_dataset x1 x2 l1 l2) T 0 \<lparr>session = s, printed = out\<rparr>
             = Inr st' \<and>
           evaluate (two_samples x1 x2) [l1, l2] Pred (session st') = Inr (Val 1, session st')"
proof -
  let ?x = "[x1, x2]" and ?ls = "[l1, l2]"
  let ?s0 = "(gd_step ?x ?ls ^^ T0) s"
  have m: "is_matrix (length ?ls) 784 ?x"
    using assms(2,3) by (simp add: is_matrix_def)
  have ok: "shape_ok ?s0"
    using assms(1) by (intro shape_ok_funpow) simp_all
  have lab: "0 \<le> ?ls ! n \<and> ?ls ! n < 10" if "n < length ?x" for n
    using that assms(4-7) by (cases n) (simp_all add: less_Suc_eq)
  obtain w2 b2 where margin: "\<forall>n<length ?x. \<forall>j<10. j \<noteq> nat (?ls ! n) \<longrightarrow>
           logit_shift ?x w2 b2 n j + 1 \<le> logit_shift ?x w2 b2 n (nat (?ls ! n))"
    using two_sample_margin [OF assms(2,3,9,4-8,10,11)] by blast
  have "\<exists>T. \<forall>n<length ?x. pred ((gd_step ?x ?ls ^^ T) ?s0) ?x ! n = ?ls ! n"
    using ok m _ lab
  proof (rule eventually_correct)
    show "?ls \<noteq> []"
      by simp
    show "logit_shift ?x w2 b2 n j + 1 \<le> logit_shift ?x w2 b2 n (nat (?ls ! n))"
      if "n < length ?x" "j < 10" "j \<noteq> nat (?ls ! n)" for n j
      using margin that by blast
  qed
  then obtain T where "\<forall>n<length ?x. pred ((gd_step ?x ?ls ^^ T) ?s0) ?x ! n = ?ls ! n"
    by blast
  then have T: "\<forall>n<length ?x. pred ((gd_step ?x ?ls ^^ (T + T0)) s) ?x ! n = ?ls ! n"
    by (simp only: funpow_add comp_apply)
  obtain st' where l: "training_loop (two_sample_dataset x1 x2 l1 l2) (T + T0) 0
             \<lparr>session = s, printed = out\<rparr> = Inr st'"
    and s': "session st' = (gd_step ?x ?ls ^^ (T + T0)) s"
    using two_sample_loop [OF assms(2,3), of l1 l2 "T + T0" "\<lparr>session = s, printed = out\<rparr>"]
    by auto
  have "evaluate (two_samples x1 x2) ?ls Pred (session st') = Inr (Val 1, session st')"
    using assms(2,3) T unfolding s' by (rule two_sample_evaluate)
  with l show ?thesis
    by (intro exI [of _ "T + T0"] exI [of _ st']) simp
qed

lemma dot_replicate: "dot (replicate n a) (replicate n b) = real n * (a * b)"
  by (simp add: dot_def sum_list_replicate)

theorem separable_batch_reaches_full_accuracy_witness:
  "shape_ok zero_variables \<and>
   length (replicate 784 (0::real)) = 784 \<and> length (replicate 784 (1::real)) = 784 \<and>
   (3::int) \<noteq> 7 \<and> length (replicate 784 (- 1::real)) = 784 \<and>
   0 < dot (replicate 784 0) (replicate 784 (- 1)) + 1 \<and>
   dot (replicate 784 1) (replicate 784 (- 1)) + 1 < 0 \<and>
   (\<exists>T st'. 1000 \<le> T \<and>
      training_loop (two_sample_dataset (replicate 784 0) (replicate 784 1) 3 7) T 0
        \<lparr>session = zero_variables, printed = []\<rparr> = Inr st' \<and>
      evaluate (two_samples (replicate 784 0) (replicate 784 1)) [3, 7] Pred (session st')
        = Inr (Val 1, session st'))"
proof -
  have p: "0 < dot (replicate 784 0) (replicate 784 (- 1)) + 1"
    and n: "dot (replicate 784 1) (replicate 784 (- 1)) + 1 < 0"
    by (simp_all add: dot_replicate)
  show ?thesis
    using separable_batch_reaches_full_accuracy [OF shape_ok_zero_variables _ _ _ _ _ _ _ _ p n,
        of 3 7 1000 "[]"] p n shape_ok_zero_variables
    by simp
qed

section \<open>Properties of the objective in single precision\<close>

subsection \<open>The laws of the arithmetic\<close>

lemma rounded_0 [simp]: "single_precision ar \<Longrightarrow> rounded ar 0 = Finite 0"
  by (simp add: single_precision_def)

lemma number_0: "single_precision ar \<Longrightarrow> number ar 0"
  by (simp add: number_def)

lemma number_1: "single_precision ar \<Longrightarrow> number ar 1"
  by (simp add: number_def single_precision_def)

lemma rounded_minus: "single_precision ar \<Longrightarrow> rounded ar (- x) = f32_neg (rounded ar x)"
  by (simp add: single_precision_def)

lemma number_minus: "single_precision ar \<Longrightarrow> number ar (- a) \<longleftrightarrow> number ar a"
proof -
  assume sp: "single_precision ar"
  show ?thesis
    unfolding number_def rounded_minus [OF sp] by (cases "rounded ar a") auto
qed

lemma rounded_nonneg:
  assumes "single_precision ar" "0 \<le> x"
  shows "exp_value ar (rounded ar x)"
  using assms unfolding single_precision_def exp_value_def by blast

lemma rounded_nonneg_cases:
  assumes "single_precision ar" "0 \<le> x"
  shows "rounded ar x = PlusInfinity \<or> (\<exists>y. rounded ar x = Finite y \<and> 0 \<le> y \<and> number ar y)"
  using assms unfolding single_precision_def by blast

lemma rounded_nonpos:
  assumes "single_precision ar" "x \<le> 0"
  shows "log_value ar (rounded ar x)"
proof -
  have m: "rounded ar x = f32_neg (rounded ar (- x))"
    using rounded_minus [OF assms(1), of "- x"] by simp
  have "0 \<le> - x" using assms(2) by simp
  from rounded_nonneg_cases [OF assms(1) this]
  show ?thesis
  proof
    assume "rounded ar (- x) = PlusInfinity"
    then show ?thesis by (simp add: m log_value_def)
  next
    assume "\<exists>y. rounded ar (- x) = Finite y \<and> 0 \<le> y \<and> number ar y"
    then obtain y where y: "rounded ar (- x) = Finite y" "0 \<le> y" "number ar y" by blast
    then have "number ar (- y)"
      using number_minus [OF assms(1)] by simp
    with y show ?thesis by (simp add: m log_value_def)
  qed
qed

lemma rounded_canonical:
  assumes "single_precision ar"
  shows "canonical ar (rounded ar x)"
proof (cases "0 \<le> x")
  case True
  then show ?thesis
    using rounded_nonneg [OF assms, of x] by (auto simp: exp_value_def canonical_def)
next
  case False
  then show ?thesis
    using rounded_nonpos [OF assms, of x] by (auto simp: log_value_def canonical_def)
qed

lemma rounded_ge:
  assumes "single_precision ar" "number ar f" "0 \<le> f" "f \<le> x" "rounded ar x = Finite y"
  shows "f \<le> y"
  using assms unfolding single_precision_def by blast

lemma rounded_le:
  assumes "single_precision ar" "number ar f" "0 \<le> x" "x \<le> f"
  shows "\<exists>y. rounded ar x = Finite y \<and> y \<le> f"
  using assms unfolding single_precision_def by blast

lemma exp_value_f32_exp:
  assumes "single_precision ar"
  shows "exp_value ar (f32_exp ar v)"
proof (cases v)
  case (Finite a)
  then show ?thesis
    using assms unfolding single_precision_def exp_value_def by (metis f32_exp.simps(1))
next
  case MinusInfinity
  then show ?thesis using assms by (simp add: exp_value_def number_0)
qed (simp_all add: exp_value_def)

subsection \<open>The row sum\<close>

lemma f32_add_exp_value:
  assumes "single_precision ar" "exp_value ar a" "exp_value ar b"
  shows "exp_value ar (f32_add ar a b)"
proof -
  have r: "exp_value ar (rounded ar (u + v))" if "0 \<le> u" "0 \<le> v" for u v :: real
    using that assms(1) by (intro rounded_nonneg) simp_all
  show ?thesis
  proof (cases a; cases b)
    fix u v assume uv: "a = Finite u" "b = Finite v"
    with assms(2,3) have "0 \<le> u" "0 \<le> v" by (simp_all add: exp_value_def)
    then show ?thesis using r uv by simp
  qed (use assms(2,3) in \<open>simp_all add: exp_value_def\<close>)
qed

lemma foldl_add_not_finite:
  assumes "acc = NotANumber \<or> acc = PlusInfinity" "\<forall>v \<in> set xs. exp_value ar v"
  shows "foldl (f32_add ar) acc xs = NotANumber \<or> foldl (f32_add ar) acc xs = PlusInfinity"
  using assms
proof (induction xs arbitrary: acc)
  case Nil
  then show ?case by simp
next
  case (Cons v vs)
  have "f32_add ar acc v = NotANumber \<or> f32_add ar acc v = PlusInfinity"
    using Cons.prems by (cases v) (auto simp: exp_value_def)
  then show ?case
    using Cons.IH [of "f32_add ar acc v"] Cons.prems(2) by simp
qed

lemma f32_add_finite_ge:
  assumes "single_precision ar" "number ar a" "0 \<le> a" "number ar b" "0 \<le> b"
    and "f32_add ar (Finite a) (Finite b) = Finite c"
  shows "a \<le> c \<and> b \<le> c \<and> number ar c"
proof -
  from assms(6) have c: "rounded ar (a + b) = Finite c" by simp
  have "a \<le> c"
    using assms(1,2,3) _ c by (rule rounded_ge) (use assms(5) in simp)
  moreover have "b \<le> c"
    using assms(1,4,5) _ c by (rule rounded_ge) (use assms(3) in simp)
  moreover have "canonical ar (rounded ar (a + b))"
    using assms(1) by (rule rounded_canonical)
  then have "number ar c"
    using c by (simp add: canonical_def)
  ultimately show ?thesis by simp
qed

lemma foldl_add_finite:
  assumes "single_precision ar" "\<forall>v \<in> set xs. exp_value ar v" "number ar a" "0 \<le> a"
    and "foldl (f32_add ar) (Finite a) xs = Finite c"
  shows "a \<le> c \<and> number ar c \<and> (\<forall>v \<in> set xs. \<exists>b. v = Finite b \<and> 0 \<le> b \<and> b \<le> c)"
  using assms(2-)
proof (induction xs arbitrary: a)
  case Nil
  then show ?case by simp
next
  case (Cons v vs)
  have ev: "exp_value ar v" using Cons.prems(1) by simp
  have step: "exp_value ar (f32_add ar (Finite a) v)"
    using assms(1) _ ev by (rule f32_add_exp_value) (use Cons.prems(2,3) in \<open>simp add: exp_value_def\<close>)
  have fold: "foldl (f32_add ar) (f32_add ar (Finite a) v) vs = Finite c"
    using Cons.prems(4) by simp
  have "\<exists>d. f32_add ar (Finite a) v = Finite d"
  proof (rule ccontr)
    assume "\<not> (\<exists>d. f32_add ar (Finite a) v = Finite d)"
    with step have "f32_add ar (Finite a) v = NotANumber \<or> f32_add ar (Finite a) v = PlusInfinity"
      by (auto simp: exp_value_def)
    then have "foldl (f32_add ar) (f32_add ar (Finite a) v) vs = NotANumber
        \<or> foldl (f32_add ar) (f32_add ar (Finite a) v) vs = PlusInfinity"
      using Cons.prems(1) by (intro foldl_add_not_finite) simp_all
    with fold show False by simp
  qed
  then obtain d where d: "f32_add ar (Finite a) v = Finite d" ..
  then obtain b where b: "v = Finite b"
    by (cases v) simp_all
  with ev have b0: "0 \<le> b" "number ar b"
    by (simp_all add: exp_value_def)
  from f32_add_finite_ge [OF assms(1) Cons.prems(2,3) b0(2,1) d [unfolded b]]
  have ad: "a \<le> d" "b \<le> d" "number ar d" by simp_all
  have "d \<le> c \<and> number ar c \<and> (\<forall>v \<in> set vs. \<exists>b. v = Finite b \<and> 0 \<le> b \<and> b \<le> c)"
    using Cons.prems(1,3) ad fold [unfolded d] by (intro Cons.IH) simp_all
  then show ?case
    using ad b b0 by auto
qed

lemma sum32_exp_values:
  assumes "single_precision ar" "\<forall>v \<in> set xs. exp_value ar v"
  shows "sum32 ar xs = NotANumber \<or> sum32 ar xs = PlusInfinity
     \<or> (\<exists>c. sum32 ar xs = Finite c \<and> (\<forall>v \<in> set xs. \<exists>b. v = Finite b \<and> 0 \<le> b \<and> b \<le> c))"
proof (cases "sum32 ar xs")
  case (Finite c)
  then have "foldl (f32_add ar) (Finite 0) xs = Finite c"
    by (simp add: sum32_def)
  from foldl_add_finite [OF assms number_0 [OF assms(1)] _ this] Finite show ?thesis
    by simp
next
  case MinusInfinity
  have "exp_value ar (foldl (f32_add ar) (Finite 0) xs)"
    using assms(2)
  proof (induction xs rule: rev_induct)
    case Nil
    then show ?case using assms(1) by (simp add: exp_value_def number_0)
  next
    case (snoc v vs)
    then show ?case using assms(1) by (simp add: f32_add_exp_value)
  qed
  with MinusInfinity show ?thesis
    by (simp add: sum32_def exp_value_def)
qed simp_all

subsection \<open>Probabilities and their logarithms\<close>

lemma f32_div_prob_value:
  assumes "single_precision ar" "\<forall>v \<in> set xs. exp_value ar v" "v \<in> set xs"
  shows "prob_value (f32_div ar v (sum32 ar xs))"
proof -
  have ev: "exp_value ar v" using assms by simp
  from sum32_exp_values [OF assms(1,2)]
  consider "sum32 ar xs = NotANumber" | "sum32 ar xs = PlusInfinity"
    | c where "sum32 ar xs = Finite c" "\<forall>v \<in> set xs. \<exists>b. v = Finite b \<and> 0 \<le> b \<and> b \<le> c"
    by blast
  then show ?thesis
  proof cases
    case 1
    then show ?thesis by (cases v) (simp_all add: prob_value_def)
  next
    case 2
    then show ?thesis using ev by (cases v) (simp_all add: prob_value_def exp_value_def)
  next
    case 3
    with assms(3) obtain b where b: "v = Finite b" "0 \<le> b" "b \<le> c" by blast
    show ?thesis
    proof (cases "c = 0")
      case True
      with b have "b = 0" by simp
      with True b 3(1) show ?thesis by (simp add: prob_value_def)
    next
      case False
      with b have c: "0 < c" by simp
      have q: "0 \<le> b / c" "b / c \<le> 1"
        using b c by simp_all
      obtain y where y: "rounded ar (b / c) = Finite y" "y \<le> 1"
        using rounded_le [OF assms(1) number_1 [OF assms(1)] q] by blast
      have "exp_value ar (rounded ar (b / c))"
        using assms(1) q(1) by (rule rounded_nonneg)
      with y have "0 \<le> y" by (simp add: exp_value_def)
      with y b 3(1) False show ?thesis
        by (simp add: prob_value_def)
    qed
  qed
qed

lemma log_value_f32_log:
  assumes "single_precision ar" "prob_value v"
  shows "log_value ar (f32_log ar v)"
proof (cases v)
  case (Finite p)
  with assms(2) have p: "0 \<le> p" "p \<le> 1" by (simp_all add: prob_value_def)
  show ?thesis
  proof (cases "p = 0")
    case True
    with Finite show ?thesis by (simp add: log_value_def)
  next
    case False
    with p have "0 < p \<and> p \<le> 1" by simp
    then have "log32 ar p = MinusInfinity \<or> (\<exists>l. log32 ar p = Finite l \<and> l \<le> 0 \<and> number ar l)"
      using assms(1) unfolding single_precision_def by blast
    then have "log_value ar (log32 ar p)"
      by (auto simp: log_value_def)
    with Finite False p show ?thesis by simp
  qed
qed (use assms(2) in \<open>simp_all add: prob_value_def log_value_def\<close>)

subsection \<open>The masked sum and its mean\<close>







subsection \<open>The sign of the objective\<close>

lemma prob32_row:
  "n < length x \<Longrightarrow>
   prob32 ar s x ! n = map (\<lambda>e. f32_div ar e (sum32 ar (elin32 ar s x ! n))) (elin32 ar s x ! n)"
  by (simp add: prob32_def Z32_def elin32_def lin32_def matmul32_def)

lemma length_log_prob32 [simp]: "length (log_prob32 ar s x) = length x"
  by (simp add: log_prob32_def prob32_def Z32_def elin32_def lin32_def matmul32_def)

lemma elin32_exp_value:
  assumes "single_precision ar" "row \<in> set (elin32 ar s x)" "v \<in> set row"
  shows "exp_value ar v"
  using assms by (auto simp: elin32_def exp_value_f32_exp)

lemma log_prob32_log_value:
  assumes "single_precision ar" "row \<in> set (log_prob32 ar s x)" "v \<in> set row"
  shows "log_value ar v"
proof -
  from assms(2) obtain n where n: "n < length x" "row = log_prob32 ar s x ! n"
    by (auto simp: in_set_conv_nth)
  have len: "n < length (elin32 ar s x)"
    using n(1) by (simp add: elin32_def lin32_def matmul32_def)
  define erow where "erow = elin32 ar s x ! n"
  have ev: "\<forall>v \<in> set erow. exp_value ar v"
    using elin32_exp_value [OF assms(1), of erow s x] len by (auto simp: erow_def)
  have "row = map (\<lambda>e. f32_log ar (f32_div ar e (sum32 ar erow))) erow"
    using n len by (simp add: log_prob32_def prob32_row erow_def prob32_def Z32_def)
  with assms(3) obtain e where e: "e \<in> set erow" "v = f32_log ar (f32_div ar e (sum32 ar erow))"
    by auto
  have "prob_value (f32_div ar e (sum32 ar erow))"
    using assms(1) ev e(1) by (rule f32_div_prob_value)
  then show ?thesis
    unfolding e(2) using assms(1) by (intro log_value_f32_log)
qed






subsection \<open>Operations that are exact\<close>

lemma canonical_log_value: "log_value ar v \<Longrightarrow> canonical ar v"
  by (auto simp: log_value_def canonical_def)

lemma f32_add_zero_right:
  assumes "canonical ar a"
  shows "f32_add ar a (Finite 0) = a"
  using assms by (cases a) (simp_all add: canonical_def number_def)

lemma f32_mul_one_left:
  assumes "canonical ar a"
  shows "f32_mul ar (Finite 1) a = a"
  using assms by (cases a) (simp_all add: canonical_def number_def)

lemma f32_mul_zero_left:
  assumes "single_precision ar" "is_finite32 a"
  shows "f32_mul ar (Finite 0) a = Finite 0"
  using assms by (cases a) (simp_all add: is_finite32_def)

lemma foldl_add_zeros:
  assumes "canonical ar a"
  shows "foldl (f32_add ar) a (replicate n (Finite 0)) = a"
  by (induction n) (simp_all add: f32_add_zero_right assms)

lemma canonical_f32_add:
  assumes "single_precision ar" "canonical ar a" "canonical ar b"
  shows "canonical ar (f32_add ar a b)"
proof (cases a; cases b)
  fix u v assume "a = Finite u" "b = Finite v"
  then show ?thesis using rounded_canonical [OF assms(1)] by simp
qed (simp_all add: canonical_def)

lemma foldl_add_single:
  assumes "single_precision ar" "canonical ar a" "canonical ar y" "j < m"
  shows "foldl (f32_add ar) a (map (\<lambda>k. if k = j then y else Finite 0) [0..<m]) = f32_add ar a y"
proof -
  have "map (\<lambda>k. if k = j then y else Finite 0) [0..<m] =
      replicate j (Finite 0) @ y # replicate (m - j - 1) (Finite 0)"
    using assms(4) by (intro nth_equalityI) (auto simp: nth_append nth_Cons')
  then show ?thesis
    using assms(1-3) by (simp add: foldl_add_zeros canonical_f32_add)
qed

lemma foldl_add_rows:
  assumes "single_precision ar" "canonical ar a" "\<forall>n \<in> set ns. canonical ar (y n) \<and> j n < m"
  shows "foldl (f32_add ar) a
           (concat (map (\<lambda>n. map (\<lambda>k. if k = j n then y n else Finite 0) [0..<m]) ns))
       = foldl (f32_add ar) a (map y ns)"
  using assms(2,3)
proof (induction ns arbitrary: a)
  case Nil
  then show ?case by simp
next
  case (Cons n ns)
  have "canonical ar (f32_add ar a (y n))"
    using assms(1) Cons.prems by (intro canonical_f32_add) simp_all
  then show ?case
    using assms(1) Cons.prems Cons.IH [of "f32_add ar a (y n)"] by (simp add: foldl_add_single)
qed

lemma sum32_nan:
  assumes "NotANumber \<in> set xs"
  shows "sum32 ar xs = NotANumber"
proof -
  have nan: "foldl (f32_add ar) NotANumber ys = NotANumber" for ys
    by (induction ys) simp_all
  from assms obtain ys zs where "xs = ys @ NotANumber # zs"
    by (auto simp: in_set_conv_decomp)
  moreover have "f32_add ar a NotANumber = NotANumber" for a
    by (cases a) simp_all
  ultimately show ?thesis
    by (simp add: sum32_def nan)
qed

subsection \<open>Negation\<close>

lemma f32_add_neg:
  assumes "single_precision ar"
  shows "f32_add ar (f32_neg a) (f32_neg b) = f32_neg (f32_add ar a b)"
proof (cases a; cases b)
  fix u v assume "a = Finite u" "b = Finite v"
  then show ?thesis
    using rounded_minus [OF assms, of "u + v"] by simp
qed simp_all

lemma f32_div_neg:
  assumes "single_precision ar"
  shows "f32_div ar (f32_neg a) c = f32_neg (f32_div ar a c)"
proof (cases a; cases c)
  fix u v assume "a = Finite u" "c = Finite v"
  then show ?thesis
    using rounded_minus [OF assms, of "u / v"] by simp
qed simp_all

lemma sum32_neg:
  assumes "single_precision ar"
  shows "sum32 ar (map f32_neg xs) = f32_neg (sum32 ar xs)"
proof -
  have "foldl (f32_add ar) (f32_neg a) (map f32_neg xs) = f32_neg (foldl (f32_add ar) a xs)" for a
    by (induction xs arbitrary: a) (simp_all add: f32_add_neg [OF assms])
  from this [of "Finite 0"] show ?thesis
    by (simp add: sum32_def)
qed

subsection \<open>The shape of the log-probabilities\<close>

lemma ncols32_weights32: "shape_ok32 s \<Longrightarrow> ncols32 (weights32 s) = 10"
  by (auto simp: shape_ok32_def is_matrix32_def ncols32_def split: list.splits)

lemma log_prob32_nth_length:
  assumes "shape_ok32 s" "n < length x"
  shows "length (log_prob32 ar s x ! n) = 10"
  using assms
  by (simp add: log_prob32_def prob32_def Z32_def elin32_def lin32_def matmul32_def
      ncols32_weights32 shape_ok32_def)

lemma log_prob32_canonical:
  assumes "single_precision ar" "shape_ok32 s" "n < length x" "k < 10"
  shows "canonical ar (log_prob32 ar s x ! n ! k)"
proof -
  have "log_prob32 ar s x ! n \<in> set (log_prob32 ar s x)"
    using assms(3) by (simp add: nth_mem)
  moreover have "log_prob32 ar s x ! n ! k \<in> set (log_prob32 ar s x ! n)"
    using assms(2-4) by (simp add: nth_mem log_prob32_nth_length)
  ultimately have "log_value ar (log_prob32 ar s x ! n ! k)"
    using assms(1) by (intro log_prob32_log_value)
  then show ?thesis by (rule canonical_log_value)
qed

lemma determ32_nth:
  "n < length ls \<Longrightarrow> k < 10 \<Longrightarrow>
   determ32 ls ! n ! k = Finite (if ls ! n = int k then 1 else 0)"
  by (simp add: determ32_def determ_def one_hot_def)

lemma length_determ32 [simp]: "length (determ32 ls) = length ls"
  by (simp add: determ32_def determ_def one_hot_def)

lemma determ32_nth_length: "n < length ls \<Longrightarrow> length (determ32 ls ! n) = 10"
  by (simp add: determ32_def determ_def one_hot_def)

subsection \<open>The objective and the negative log-likelihood\<close>

lemma masked_rows:
  assumes "single_precision ar" "shape_ok32 s" "length ls = length x"
    and "\<forall>l \<in> set ls. 0 \<le> l \<and> l < 10"
    and "\<forall>n < length x. \<forall>k < 10. int k \<noteq> ls ! n \<longrightarrow> is_finite32 (log_prob32 ar s x ! n ! k)"
  shows "map2 (map2 (f32_mul ar)) (determ32 ls) (log_prob32 ar s x) =
     map (\<lambda>n. map (\<lambda>k. if k = nat (ls ! n) then log_prob32 ar s x ! n ! nat (ls ! n) else Finite 0)
       [0..<10]) [0..<length ls]"
proof (rule nth_equalityI)
  show "length (map2 (map2 (f32_mul ar)) (determ32 ls) (log_prob32 ar s x)) =
      length (map (\<lambda>n. map (\<lambda>k. if k = nat (ls ! n) then log_prob32 ar s x ! n ! nat (ls ! n)
        else Finite 0) [0..<10]) [0..<length ls])"
    using assms(3) by simp
next
  fix n assume "n < length (map2 (map2 (f32_mul ar)) (determ32 ls) (log_prob32 ar s x))"
  then have n: "n < length ls" "n < length x"
    using assms(3) by simp_all
  have l: "0 \<le> ls ! n" "ls ! n < 10"
    using assms(4) n(1) by (simp_all add: nth_mem)
  have "map2 (f32_mul ar) (determ32 ls ! n) (log_prob32 ar s x ! n) =
      map (\<lambda>k. if k = nat (ls ! n) then log_prob32 ar s x ! n ! nat (ls ! n) else Finite 0) [0..<10]"
  proof (rule nth_equalityI)
    show "length (map2 (f32_mul ar) (determ32 ls ! n) (log_prob32 ar s x ! n)) =
        length (map (\<lambda>k. if k = nat (ls ! n) then log_prob32 ar s x ! n ! nat (ls ! n)
          else Finite 0) [0..<10])"
      using n assms(2) by (simp add: determ32_nth_length log_prob32_nth_length)
  next
    fix k assume "k < length (map2 (f32_mul ar) (determ32 ls ! n) (log_prob32 ar s x ! n))"
    then have k: "k < 10"
      using n by (simp add: determ32_nth_length)
    show "map2 (f32_mul ar) (determ32 ls ! n) (log_prob32 ar s x ! n) ! k =
        map (\<lambda>k. if k = nat (ls ! n) then log_prob32 ar s x ! n ! nat (ls ! n) else Finite 0)
          [0..<10] ! k"
    proof (cases "ls ! n = int k")
      case True
      then have "k = nat (ls ! n)" by simp
      moreover have "f32_mul ar (Finite 1) (log_prob32 ar s x ! n ! k) = log_prob32 ar s x ! n ! k"
        using assms(1,2) n(2) k by (intro f32_mul_one_left log_prob32_canonical)
      ultimately show ?thesis
        using True k n assms(2)
        by (simp add: determ32_nth determ32_nth_length log_prob32_nth_length)
    next
      case False
      then have "k \<noteq> nat (ls ! n)" using l by auto
      moreover have "is_finite32 (log_prob32 ar s x ! n ! k)"
        using assms(5) n(2) k False by auto
      then have "f32_mul ar (Finite 0) (log_prob32 ar s x ! n ! k) = Finite 0"
        using assms(1) by (intro f32_mul_zero_left)
      ultimately show ?thesis
        using False k n assms(2)
        by (simp add: determ32_nth determ32_nth_length log_prob32_nth_length)
    qed
  qed
  then show "map2 (map2 (f32_mul ar)) (determ32 ls) (log_prob32 ar s x) ! n =
      map (\<lambda>n. map (\<lambda>k. if k = nat (ls ! n) then log_prob32 ar s x ! n ! nat (ls ! n) else Finite 0)
        [0..<10]) [0..<length ls] ! n"
    using n assms(3) by simp
qed

lemma length_concat_masked:
  "length (concat (map (\<lambda>n. map (f n) [0..<m]) ns)) = length ns * m"
  by (induction ns) simp_all

lemma loss32_tenth_mean_nll:
  assumes "single_precision ar" "shape_ok32 s" "length ls = length x"
    and "\<forall>l \<in> set ls. 0 \<le> l \<and> l < 10"
    and "\<forall>n < length x. \<forall>k < 10. int k \<noteq> ls ! n \<longrightarrow> is_finite32 (log_prob32 ar s x ! n ! k)"
  shows "loss32 ar s x ls = Inr (tenth_mean_nll ar s x ls)"
proof -
  define y where "y n = log_prob32 ar s x ! n ! nat (ls ! n)" for n
  define P where "P = map (\<lambda>n. map (\<lambda>k. if k = nat (ls ! n) then y n else Finite 0) [0..<10])
    [0..<length ls]"
  have mul: "mul32 ar (determ32 ls) (log_prob32 ar s x) = Inr P"
    using masked_rows [OF assms] assms(3)
    by (simp add: mul32_def broadcast_rows_def broadcast_to32_def P_def y_def)
  have can: "\<forall>n \<in> set [0..<length ls]. canonical ar (y n) \<and> nat (ls ! n) < 10"
  proof
    fix n assume "n \<in> set [0..<length ls]"
    then have n: "n < length ls" by simp
    then have l: "0 \<le> ls ! n" "ls ! n < 10"
      using assms(4) by (simp_all add: nth_mem)
    then have "nat (ls ! n) < 10" by simp
    moreover from this have "canonical ar (y n)"
      unfolding y_def using assms(1-3) n by (intro log_prob32_canonical) simp_all
    ultimately show "canonical ar (y n) \<and> nat (ls ! n) < 10" by simp
  qed
  have "canonical ar (Finite 0)"
    using assms(1) by (simp add: canonical_def number_0)
  then have "sum32 ar (concat P) = sum32 ar (map y [0..<length ls])"
    unfolding sum32_def P_def using can assms(1)
    by (intro foldl_add_rows) simp_all
  moreover have "length (concat P) = length ls * 10"
    unfolding P_def by (simp only: length_concat_masked) simp
  ultimately have "reduce_mean32 ar P =
      f32_div ar (sum32 ar (map y [0..<length ls])) (rounded ar (real (length ls * 10)))"
    by (simp add: reduce_mean32_def)
  moreover have "sum32 ar (map (\<lambda>n. f32_neg (y n)) [0..<length ls]) =
      f32_neg (sum32 ar (map y [0..<length ls]))"
    using sum32_neg [OF assms(1), of "map y [0..<length ls]"] by (simp add: comp_def)
  ultimately have "f32_neg (reduce_mean32 ar P) = tenth_mean_nll ar s x ls"
    by (simp add: tenth_mean_nll_def y_def f32_div_neg [OF assms(1)])
  with mul show ?thesis
    by (simp add: loss32_def)
qed

subsection \<open>Exponents and rounding to nearest\<close>

lemma ulp_pos: "0 < ulp x"
  by (simp add: ulp_def)

lemma exponent_ge: "- 126 \<le> exponent x"
proof (cases "\<bar>x\<bar> < 2 powr (- 126)")
  case True
  then show ?thesis by (simp add: exponent_def)
next
  case False
  then have ge: "2 powr (of_int (- 126)) \<le> \<bar>x\<bar>" by simp
  have "0 < (2::real) powr (of_int (- 126))" by simp
  with ge have "0 < \<bar>x\<bar>" by linarith
  with ge have "of_int (- 126) \<le> log 2 \<bar>x\<bar>"
    by (subst le_log_iff) simp_all
  then have "- 126 \<le> \<lfloor>log 2 \<bar>x\<bar>\<rfloor>"
    by (simp add: le_floor_iff)
  with False show ?thesis by (simp add: exponent_def)
qed

text \<open>The binade of a number fixes its exponent.\<close>

lemma exponent_eqI:
  assumes "- 126 \<le> e" "2 powr (of_int e) \<le> \<bar>x\<bar>" "\<bar>x\<bar> < 2 powr (of_int e + 1)"
  shows "exponent x = e"
proof -
  have "2 powr (- 126) \<le> (2::real) powr (of_int e)"
    using assms(1) by simp
  with assms(2) have ge: "\<not> \<bar>x\<bar> < 2 powr (- 126)" by linarith
  have "0 < (2::real) powr (of_int e)" by simp
  with assms(2) have pos: "0 < \<bar>x\<bar>" by linarith
  have "\<lfloor>log 2 \<bar>x\<bar>\<rfloor> = e"
    using assms(2,3) pos by (subst floor_log_eq_powr_iff) simp_all
  with ge show ?thesis by (simp add: exponent_def)
qed

lemma exponent_small:
  assumes "\<bar>x\<bar> < 2 powr (- 125)"
  shows "exponent x = - 126"
proof (cases "\<bar>x\<bar> < 2 powr (- 126)")
  case True
  then show ?thesis by (simp add: exponent_def)
next
  case False
  show ?thesis
    by (rule exponent_eqI) (use False assms in simp_all)
qed

lemma exponent_bounds:
  assumes "- 126 < exponent x \<or> 2 powr (- 126) \<le> \<bar>x\<bar>"
  shows "2 powr (of_int (exponent x)) \<le> \<bar>x\<bar> \<and> \<bar>x\<bar> < 2 powr (of_int (exponent x) + 1)"
proof -
  have ge: "\<not> \<bar>x\<bar> < 2 powr (- 126)"
    using assms by (auto simp: exponent_def split: if_splits)
  have "0 < (2::real) powr (- 126)" by simp
  with ge have pos: "0 < \<bar>x\<bar>" by linarith
  have e: "exponent x = \<lfloor>log 2 \<bar>x\<bar>\<rfloor>"
    using ge by (simp add: exponent_def)
  have "\<lfloor>log 2 \<bar>x\<bar>\<rfloor> = exponent x" using e by simp
  then show ?thesis
    using pos by (subst (asm) floor_log_eq_powr_iff) simp_all
qed

lemma exponent_upper: "\<bar>x\<bar> < 2 powr (of_int (exponent x) + 1)"
proof (cases "\<bar>x\<bar> < 2 powr (- 126)")
  case True
  then have "exponent x = - 126" by (simp add: exponent_def)
  then have e: "of_int (exponent x) + 1 = (- 125 :: real)" by simp
  have "(2::real) powr (- 126) \<le> 2 powr (- 125)" by simp
  with True have "\<bar>x\<bar> < 2 powr (- 125)" by linarith
  then show ?thesis unfolding e .
next
  case False
  then show ?thesis using exponent_bounds [of x] by simp
qed

lemma exponent_minus [simp]: "exponent (- x) = exponent x"
  by (simp add: exponent_def)

lemma ulp_minus [simp]: "ulp (- x) = ulp x"
  by (simp add: ulp_def)

lemma round_half_even_of_int [simp]: "round_half_even (of_int n) = n"
  by (simp add: round_half_even_def)

lemma round_half_even_range:
  "\<lfloor>x\<rfloor> \<le> round_half_even x" "round_half_even x \<le> \<lfloor>x\<rfloor> + 1"
  unfolding round_half_even_def Let_def by auto

lemma round_half_even_ge:
  assumes "of_int n \<le> x"
  shows "n \<le> round_half_even x"
proof -
  have "n \<le> \<lfloor>x\<rfloor>" using assms by (simp add: le_floor_iff)
  with round_half_even_range(1) [of x] show ?thesis by linarith
qed

lemma round_half_even_le:
  assumes "x \<le> of_int n"
  shows "round_half_even x \<le> n"
proof (cases "x = of_int n")
  case True
  then show ?thesis by simp
next
  case False
  with assms have "x < of_int n" by simp
  then have "\<lfloor>x\<rfloor> < n" by (simp add: floor_less_iff)
  with round_half_even_range(2) [of x] show ?thesis by linarith
qed

lemma round_half_even_minus: "round_half_even (- x) = - round_half_even x"
proof (cases "x = of_int \<lfloor>x\<rfloor>")
  case True
  then obtain n :: int where "x = of_int n" ..
  then have "round_half_even (- x) = round_half_even (of_int (- n))" by simp
  also have "\<dots> = - n" by (simp only: round_half_even_of_int)
  finally show ?thesis using \<open>x = of_int n\<close> by simp
next
  case False
  then have fl: "\<lfloor>- x\<rfloor> = - \<lfloor>x\<rfloor> - 1"
    by (simp add: floor_minus ceiling_altdef)
  define n where "n = \<lfloor>x\<rfloor>"
  define r where "r = x - of_int n"
  have r': "- x - of_int (- n - 1) = 1 - r"
    by (simp add: r_def)
  have ev: "even (- n - 1) \<longleftrightarrow> odd n"
    by simp
  show ?thesis
    unfolding round_half_even_def Let_def fl n_def [symmetric] r' r_def [symmetric]
    using ev by (auto simp: )
qed

lemma ulp_times: "ulp x * 2 powr 23 = 2 powr (of_int (exponent x))"
  unfolding ulp_def powr_add [symmetric] by simp

lemma ulp_times': "ulp x * 2 powr 24 = 2 powr (of_int (exponent x) + 1)"
  unfolding ulp_def powr_add [symmetric] by (simp add: add.commute)

lemma significand_less: "\<bar>x\<bar> / ulp x < 2 powr 24"
proof -
  have "\<bar>x\<bar> < ulp x * 2 powr 24"
    using exponent_upper [of x] by (simp only: ulp_times')
  then show ?thesis
    using ulp_pos [of x] by (simp add: divide_less_eq mult.commute)
qed

lemma significand_ge:
  assumes "2 powr (of_int (exponent x)) \<le> \<bar>x\<bar>"
  shows "2 powr 23 \<le> \<bar>x\<bar> / ulp x"
proof -
  have "ulp x * 2 powr 23 \<le> \<bar>x\<bar>"
    using assms by (simp only: ulp_times)
  then show ?thesis
    using ulp_pos [of x] by (simp add: le_divide_eq mult.commute)
qed

lemma two_powr_int: "(2::real) powr 23 = of_int (2 ^ 23)" "(2::real) powr 24 = of_int (2 ^ 24)"
  by simp_all

lemma round32_nearest:
  "round32 x =
     (if 2 powr 128 \<le> \<bar>nearest x\<bar> then (if 0 < x then PlusInfinity else MinusInfinity)
      else Finite (nearest x))"
  by (simp add: round32_def nearest_def Let_def)

lemma nearest_nonneg: "0 \<le> x \<Longrightarrow> 0 \<le> nearest x"
proof -
  assume "0 \<le> x"
  then have "of_int 0 \<le> x / ulp x"
    using ulp_pos [of x] by simp
  then have "0 \<le> round_half_even (x / ulp x)"
    by (rule round_half_even_ge)
  then show ?thesis
    using ulp_pos [of x] by (simp add: nearest_def)
qed

lemma nearest_minus: "nearest (- x) = - nearest x"
  by (simp add: nearest_def round_half_even_minus)

subsection \<open>Representable numbers\<close>

lemma representable_0 [simp]: "representable 0"
  by (simp add: representable_def)

lemma representable_minus: "representable (- f) \<longleftrightarrow> representable f"
proof -
  have "(\<exists>m::int. - f = of_int m * ulp f) \<longleftrightarrow> (\<exists>m::int. f = of_int m * ulp f)"
  proof
    assume "\<exists>m::int. - f = of_int m * ulp f"
    then obtain m :: int where "- f = of_int m * ulp f" ..
    then have "f = of_int (- m) * ulp f" by simp
    then show "\<exists>m::int. f = of_int m * ulp f" ..
  next
    assume "\<exists>m::int. f = of_int m * ulp f"
    then obtain m :: int where "f = of_int m * ulp f" ..
    then have "- f = of_int (- m) * ulp f" by simp
    then show "\<exists>m::int. - f = of_int m * ulp f" ..
  qed
  then show ?thesis
    by (simp add: representable_def)
qed

lemma nearest_representable_value:
  assumes "representable f"
  shows "nearest f = f"
proof -
  from assms obtain m :: int where m: "f = of_int m * ulp f"
    by (auto simp: representable_def)
  have "f / ulp f = of_int m"
    using ulp_pos [of f] by (subst m) simp
  then show ?thesis
    using m by (simp add: nearest_def)
qed

lemma round32_representable:
  assumes "representable f"
  shows "round32 f = Finite f"
  using assms by (simp add: round32_nearest nearest_representable_value representable_def)

text \<open>Rounding does not cross a representable number.\<close>

lemma nearest_ge:
  assumes "representable f" "0 \<le> f" "f \<le> x"
  shows "f \<le> nearest x"
proof (cases "exponent f = exponent x")
  case True
  from assms(1) obtain m :: int where m: "f = of_int m * ulp f"
    by (auto simp: representable_def)
  have q: "ulp f = ulp x"
    using True by (simp add: ulp_def)
  have "of_int m \<le> x / ulp x"
    using assms(3) ulp_pos [of x] by (subst (asm) m) (simp add: q le_divide_eq)
  then have "m \<le> round_half_even (x / ulp x)"
    by (rule round_half_even_ge)
  then have "of_int m * ulp x \<le> nearest x"
    using ulp_pos [of x] by (simp add: nearest_def)
  then show ?thesis
    using m q by simp
next
  case False
  have x: "\<bar>x\<bar> = x" "\<bar>f\<bar> = f"
    using assms by simp_all
  have lt: "f < 2 powr (of_int (exponent x))"
  proof (rule ccontr)
    assume "\<not> f < 2 powr (of_int (exponent x))"
    then have "2 powr (of_int (exponent x)) \<le> \<bar>f\<bar>"
      using x by simp
    moreover have "\<bar>f\<bar> < 2 powr (of_int (exponent x) + 1)"
      using exponent_upper [of x] assms(3) x by linarith
    ultimately have "exponent f = exponent x"
      using exponent_ge [of x] by (intro exponent_eqI)
    with False show False by simp
  qed
  have big: "- 126 < exponent x"
  proof (rule ccontr)
    assume "\<not> - 126 < exponent x"
    with exponent_ge [of x] have e: "exponent x = - 126" by simp
    with lt have "\<bar>f\<bar> < 2 powr (- 126)" using x by simp
    then have "exponent f = - 126" by (simp add: exponent_def)
    with e False show False by simp
  qed
  then have "2 powr (of_int (exponent x)) \<le> \<bar>x\<bar>"
    using exponent_bounds [of x] by simp
  then have "of_int (2 ^ 23) \<le> x / ulp x"
    using significand_ge [of x] x by (simp only: two_powr_int)
  then have "2 ^ 23 \<le> round_half_even (x / ulp x)"
    by (rule round_half_even_ge)
  then have "of_int (2 ^ 23) * ulp x \<le> nearest x"
    using ulp_pos [of x] unfolding nearest_def by (intro mult_right_mono) simp_all
  moreover have "of_int (2 ^ 23) * ulp x = 2 powr (of_int (exponent x))"
    using ulp_times [of x] by (simp only: two_powr_int mult.commute)
  ultimately show ?thesis
    using lt by linarith
qed

lemma nearest_le:
  assumes "representable f" "0 \<le> x" "x \<le> f"
  shows "nearest x \<le> f"
proof (cases "exponent f = exponent x")
  case True
  from assms(1) obtain m :: int where m: "f = of_int m * ulp f"
    by (auto simp: representable_def)
  have q: "ulp f = ulp x"
    using True by (simp add: ulp_def)
  have "x / ulp x \<le> of_int m"
    using assms(3) ulp_pos [of x] by (subst (asm) m) (simp add: q divide_le_eq)
  then have "round_half_even (x / ulp x) \<le> m"
    by (rule round_half_even_le)
  then have "nearest x \<le> of_int m * ulp x"
    using ulp_pos [of x] by (simp add: nearest_def)
  then show ?thesis
    using m q by simp
next
  case False
  have x: "\<bar>x\<bar> = x" "\<bar>f\<bar> = f"
    using assms by simp_all
  have ge: "2 powr (of_int (exponent x) + 1) \<le> f"
  proof (rule ccontr)
    assume "\<not> 2 powr (of_int (exponent x) + 1) \<le> f"
    then have up: "\<bar>f\<bar> < 2 powr (of_int (exponent x) + 1)"
      using x by simp
    show False
    proof (cases "- 126 < exponent x")
      case True
      then have "2 powr (of_int (exponent x)) \<le> \<bar>x\<bar>"
        using exponent_bounds [of x] by simp
      then have "2 powr (of_int (exponent x)) \<le> \<bar>f\<bar>"
        using assms(3) x by linarith
      then have "exponent f = exponent x"
        using up exponent_ge [of x] by (intro exponent_eqI)
      with False show False by simp
    next
      case False
      with exponent_ge [of x] have e: "exponent x = - 126" by simp
      with up have "\<bar>f\<bar> < 2 powr (- 125)" by simp
      then have "exponent f = - 126" by (rule exponent_small)
      with e \<open>exponent f \<noteq> exponent x\<close> show False by simp
    qed
  qed
  have "x / ulp x \<le> of_int (2 ^ 24)"
    using significand_less [of x] x by (simp only: two_powr_int)
  then have "round_half_even (x / ulp x) \<le> 2 ^ 24"
    by (rule round_half_even_le)
  then have "nearest x \<le> of_int (2 ^ 24) * ulp x"
    using ulp_pos [of x] unfolding nearest_def by (intro mult_right_mono) simp_all
  moreover have "of_int (2 ^ 24) * ulp x = 2 powr (of_int (exponent x) + 1)"
    using ulp_times' [of x] by (simp only: two_powr_int mult.commute)
  ultimately show ?thesis
    using ge by linarith
qed

text \<open>What a number is rounded to is representable, unless it overflows.\<close>

lemma nearest_representable_nonneg:
  assumes "0 \<le> x" "nearest x < 2 powr 128"
  shows "representable (nearest x)"
proof -
  define e where "e = exponent x"
  define n where "n = round_half_even (x / ulp x)"
  have y: "nearest x = of_int n * ulp x"
    by (simp add: nearest_def n_def)
  have y0: "0 \<le> nearest x"
    using assms(1) by (rule nearest_nonneg)
  then have ay: "\<bar>nearest x\<bar> = nearest x" by simp
  have x: "\<bar>x\<bar> = x" using assms(1) by simp
  have "x / ulp x \<le> of_int (2 ^ 24)"
    using significand_less [of x] x by (simp only: two_powr_int)
  then have n_le: "n \<le> 2 ^ 24"
    unfolding n_def by (rule round_half_even_le)
  have n_ge: "0 \<le> n"
    using y0 ulp_pos [of x] by (simp add: y zero_le_mult_iff)
  have lim: "\<bar>nearest x\<bar> < 2 powr 128"
    using assms(2) ay by simp
  consider "n = 2 ^ 24" | "2 ^ 23 \<le> n" "n < 2 ^ 24" | "n < 2 ^ 23"
    using n_le by linarith
  then show ?thesis
  proof cases
    case 1
    have v: "nearest x = 2 powr (of_int (e + 1))"
      using ulp_times' [of x] unfolding y 1 e_def
      by (simp only: two_powr_int mult.commute of_int_add of_int_1)
    have "exponent (nearest x) = e + 1"
    proof (rule exponent_eqI)
      show "- 126 \<le> e + 1" using exponent_ge [of x] by (simp add: e_def)
      show "2 powr (of_int (e + 1)) \<le> \<bar>nearest x\<bar>" using v ay by simp
      show "\<bar>nearest x\<bar> < 2 powr (of_int (e + 1) + 1)" unfolding ay v by simp
    qed
    then have "ulp (nearest x) = 2 * ulp x"
      unfolding ulp_def e_def [symmetric]
      by (simp add: powr_diff powr_add)
    then have "nearest x = of_int (2 ^ 23) * ulp (nearest x)"
      unfolding y 1 by simp
    then have "\<exists>m::int. nearest x = of_int m * ulp (nearest x)" ..
    with lim show ?thesis by (simp add: representable_def)
  next
    case 2
    have lo: "2 powr (of_int e) \<le> nearest x"
    proof -
      have "of_int (2 ^ 23) * ulp x \<le> of_int n * ulp x"
        using 2(1) ulp_pos [of x] by (intro mult_right_mono) simp_all
      moreover have "of_int (2 ^ 23) * ulp x = 2 powr (of_int e)"
        using ulp_times [of x] unfolding e_def by (simp only: two_powr_int mult.commute)
      ultimately show ?thesis unfolding y by linarith
    qed
    have hi: "nearest x < 2 powr (of_int e + 1)"
    proof -
      have "of_int n * ulp x < of_int (2 ^ 24) * ulp x"
        using 2(2) ulp_pos [of x] by (intro mult_strict_right_mono) simp_all
      moreover have "of_int (2 ^ 24) * ulp x = 2 powr (of_int e + 1)"
        using ulp_times' [of x] unfolding e_def by (simp only: two_powr_int mult.commute)
      ultimately show ?thesis unfolding y by linarith
    qed
    have "exponent (nearest x) = e"
      by (rule exponent_eqI) (use lo hi ay exponent_ge [of x] in \<open>simp_all add: e_def\<close>)
    then have "ulp (nearest x) = ulp x"
      by (simp add: ulp_def e_def)
    then have "nearest x = of_int n * ulp (nearest x)"
      using y by simp
    then have "\<exists>m::int. nearest x = of_int m * ulp (nearest x)" ..
    with lim show ?thesis by (simp add: representable_def)
  next
    case 3
    have e126: "e = - 126"
    proof (rule ccontr)
      assume "e \<noteq> - 126"
      with exponent_ge [of x] have "- 126 < exponent x" by (simp add: e_def)
      then have "2 powr (of_int (exponent x)) \<le> \<bar>x\<bar>"
        using exponent_bounds [of x] by simp
      then have "of_int (2 ^ 23) \<le> x / ulp x"
        using significand_ge [of x] x by (simp only: two_powr_int)
      then have "2 ^ 23 \<le> n"
        unfolding n_def by (rule round_half_even_ge)
      with 3 show False by simp
    qed
    have "of_int n * ulp x < of_int (2 ^ 23) * ulp x"
      using 3 ulp_pos [of x] by (intro mult_strict_right_mono) simp_all
    moreover have "of_int (2 ^ 23) * ulp x = 2 powr (of_int e)"
      using ulp_times [of x] unfolding e_def by (simp only: two_powr_int mult.commute)
    ultimately have "nearest x < 2 powr (- 126)"
      unfolding y e126 by simp
    then have "\<bar>nearest x\<bar> < 2 powr (- 126)"
      using ay by simp
    then have "exponent (nearest x) = - 126"
      by (simp add: exponent_def)
    then have "ulp (nearest x) = ulp x"
      using e126 by (simp add: ulp_def e_def)
    then have "nearest x = of_int n * ulp (nearest x)"
      using y by simp
    then have "\<exists>m::int. nearest x = of_int m * ulp (nearest x)" ..
    with lim show ?thesis by (simp add: representable_def)
  qed
qed

lemma nearest_representable:
  assumes "\<bar>nearest x\<bar> < 2 powr 128"
  shows "representable (nearest x)"
proof (cases "0 \<le> x")
  case True
  then show ?thesis
    using assms nearest_nonneg [of x] by (intro nearest_representable_nonneg) simp_all
next
  case False
  then have "0 \<le> - x" by simp
  moreover have "nearest (- x) < 2 powr 128"
    using assms by (simp add: nearest_minus)
  ultimately have "representable (nearest (- x))"
    by (rule nearest_representable_nonneg)
  then show ?thesis
    by (simp add: nearest_minus representable_minus)
qed

lemma representable_scaled:
  assumes "- 149 \<le> k" "\<bar>real_of_int m\<bar> < 2 powr 24" "k \<le> 104"
  shows "representable (of_int m * 2 powr (of_int k))"
proof -
  define f where "f = real_of_int m * 2 powr (of_int k)"
  have af: "\<bar>f\<bar> = \<bar>real_of_int m\<bar> * 2 powr (of_int k)"
    by (simp add: f_def abs_mult)
  have "\<bar>f\<bar> < 2 powr 24 * 2 powr (of_int k)"
    unfolding af using assms(2) by (intro mult_strict_right_mono) simp_all
  then have up: "\<bar>f\<bar> < 2 powr (of_int k + 24)"
    by (simp only: powr_add [symmetric] add.commute)
  have "(2::real) powr (of_int k + 24) \<le> 2 powr 128"
    using assms(3) by (intro powr_mono) simp_all
  with up have lim: "\<bar>f\<bar> < 2 powr 128" by linarith
  have e: "exponent f \<le> k + 23"
  proof (cases "\<bar>f\<bar> < 2 powr (- 126)")
    case True
    then show ?thesis using assms(1) by (simp add: exponent_def)
  next
    case False
    then have "2 powr (of_int (exponent f)) \<le> \<bar>f\<bar>"
      using exponent_bounds [of f] by simp
    with up have "(2::real) powr (of_int (exponent f)) < 2 powr (of_int k + 24)" by linarith
    then have "real_of_int (exponent f) < of_int k + 24" by simp
    then have "real_of_int (exponent f) < of_int (k + 24)" by simp
    then have "exponent f < k + 24" by (simp only: of_int_less_iff)
    then show ?thesis by simp
  qed
  define j where "j = nat (k + 23 - exponent f)"
  have j: "of_int k = of_int (exponent f) - 23 + real j"
    using e by (simp add: j_def)
  have "2 powr (of_int k) = ulp f * 2 powr (real j)"
    unfolding ulp_def j powr_add ..
  also have "\<dots> = ulp f * 2 ^ j"
    by (simp add: powr_realpow)
  finally have pk: "2 powr (of_int k) = ulp f * 2 ^ j" .
  have "f = real_of_int m * 2 powr (of_int k)"
    by (simp only: f_def)
  also have "\<dots> = real_of_int m * (ulp f * 2 ^ j)"
    by (simp only: pk)
  also have "\<dots> = of_int (m * 2 ^ j) * ulp f"
    by simp
  finally have "f = of_int (m * 2 ^ j) * ulp f" .
  then have "\<exists>m::int. f = of_int m * ulp f" ..
  with lim show ?thesis
    unfolding f_def [symmetric] by (simp add: representable_def)
qed

lemma representable_of_int:
  assumes "\<bar>real_of_int m\<bar> < 2 powr 24"
  shows "representable (of_int m)"
  using representable_scaled [of 0 m] assms by simp

lemma representable_1 [simp]: "representable 1"
proof -
  have e: "exponent 1 = 0"
    by (rule exponent_eqI) simp_all
  have "(1::real) = of_int (2 ^ 23) * ulp 1"
    unfolding ulp_def e by (simp add: powr_minus)
  then have "\<exists>m::int. (1::real) = of_int m * ulp 1" ..
  then show ?thesis
    by (simp add: representable_def)
qed

subsection \<open>Rounded values\<close>

lemma round32_cases:
  obtains (fin) "round32 x = Finite (nearest x)" "\<bar>nearest x\<bar> < 2 powr 128"
  | (pinf) "round32 x = PlusInfinity" "0 < x"
  | (minf) "round32 x = MinusInfinity" "x \<le> 0"
proof (cases "2 powr 128 \<le> \<bar>nearest x\<bar>")
  case True
  show ?thesis
  proof (cases "0 < x")
    case True
    with \<open>2 powr 128 \<le> \<bar>nearest x\<bar>\<close> have "round32 x = PlusInfinity"
      by (simp only: round32_nearest if_True)
    then show ?thesis using True by (rule pinf)
  next
    case False
    with \<open>2 powr 128 \<le> \<bar>nearest x\<bar>\<close> have "round32 x = MinusInfinity"
      by (simp only: round32_nearest if_True if_False)
    moreover from False have "x \<le> 0" by simp
    ultimately show ?thesis by (rule minf)
  qed
next
  case False
  then have "round32 x = Finite (nearest x)"
    by (simp only: round32_nearest if_False)
  moreover from False have "\<bar>nearest x\<bar> < 2 powr 128" by (simp only: not_le)
  ultimately show ?thesis by (rule fin)
qed

lemma round32_0 [simp]: "round32 0 = Finite 0"
  by (rule round32_representable) simp

lemma round32_minus: "round32 (- x) = f32_neg (round32 x)"
proof (cases "x = 0")
  case True
  then show ?thesis by simp
next
  case False
  show ?thesis
  proof (cases "2 powr 128 \<le> \<bar>nearest x\<bar>")
    case True
    then have "2 powr 128 \<le> \<bar>nearest (- x)\<bar>" by (simp add: nearest_minus)
    then have "round32 (- x) = (if 0 < - x then PlusInfinity else MinusInfinity)"
      by (simp only: round32_nearest if_True)
    moreover have "round32 x = (if 0 < x then PlusInfinity else MinusInfinity)"
      using True by (simp only: round32_nearest if_True)
    ultimately show ?thesis using False by simp
  next
    case False
    then have "\<not> 2 powr 128 \<le> \<bar>nearest (- x)\<bar>" by (simp add: nearest_minus)
    then have "round32 (- x) = Finite (nearest (- x))"
      by (simp only: round32_nearest if_False)
    moreover have "round32 x = Finite (nearest x)"
      using False by (simp only: round32_nearest if_False)
    ultimately show ?thesis by (simp add: nearest_minus)
  qed
qed

text \<open>A number below half of the smallest subnormal is rounded to zero.\<close>

lemma round32_underflow:
  assumes "0 \<le> x" "x < 2 powr (- 150)"
  shows "round32 x = Finite 0"
proof -
  have "(2::real) powr (- 150) \<le> 2 powr (- 126)" by simp
  with assms(2) have "x < 2 powr (- 126)" by linarith
  with assms(1) have "\<bar>x\<bar> < 2 powr (- 126)" by simp
  then have "exponent x = - 126" by (simp add: exponent_def)
  then have u: "ulp x = 2 powr (- 149)" by (simp add: ulp_def)
  have "x / ulp x < 2 powr (- 150) / 2 powr (- 149)"
    unfolding u using assms(2) by (intro divide_strict_right_mono) simp_all
  also have "\<dots> = 2 powr (- 1)"
    by (simp only: powr_diff [symmetric]) simp
  also have "\<dots> = 1 / 2"
    by (simp add: powr_minus)
  finally have lt: "x / ulp x < 1 / 2" .
  have ge: "0 \<le> x / ulp x"
    using assms(1) ulp_pos [of x] by simp
  have "x / ulp x < 1"
    using lt by linarith
  then have "\<lfloor>x / ulp x\<rfloor> = 0"
    using ge by (simp only: floor_eq_iff) simp
  then have "round_half_even (x / ulp x) = 0"
    using lt by (simp add: round_half_even_def)
  then have "nearest x = 0"
    by (simp add: nearest_def)
  then show ?thesis
    by (simp add: round32_nearest)
qed

lemma exp_minus_200: "exp (- 200 :: real) < 2 powr (- 150)"
proof -
  have "(2::real) \<le> exp 1"
    using exp_ge_add_one_self [of "1::real"] by simp
  then have "(2::real) ^ 200 \<le> exp 1 ^ 200"
    by (intro power_mono) simp_all
  also have "\<dots> = exp (200::real)"
    by (simp add: exp_of_nat_mult [symmetric])
  finally have "(2::real) ^ 200 \<le> exp 200" .
  moreover have "(2::real) ^ 150 < 2 ^ 200" by simp
  ultimately have "(2::real) ^ 150 < exp 200" by linarith
  then have b: "1 / exp (200::real) < 1 / 2 ^ 150"
    by (intro divide_strict_left_mono) simp_all
  have a: "exp (- 200 :: real) = 1 / exp 200"
    by (simp add: exp_minus inverse_eq_divide)
  have c: "(2::real) powr (- 150) = 1 / 2 ^ 150"
    by (simp add: powr_minus inverse_eq_divide)
  show ?thesis unfolding a c by (rule b)
qed

subsection \<open>Arithmetics with correctly rounded exponential and logarithm\<close>

lemma single_precisionI:
  assumes r0: "rnd 0 = Finite 0" and r1: "rnd 1 = Finite 1"
    and sym: "\<And>x. rnd (- x) = f32_neg (rnd x)"
    and pos: "\<And>x. 0 \<le> x \<Longrightarrow>
        rnd x = PlusInfinity \<or> (\<exists>y. rnd x = Finite y \<and> 0 \<le> y \<and> rnd y = Finite y)"
    and ge: "\<And>f x y. rnd f = Finite f \<Longrightarrow> 0 \<le> f \<Longrightarrow> f \<le> x \<Longrightarrow> rnd x = Finite y \<Longrightarrow> f \<le> y"
    and le: "\<And>f x. rnd f = Finite f \<Longrightarrow> 0 \<le> x \<Longrightarrow> x \<le> f \<Longrightarrow> \<exists>y. rnd x = Finite y \<and> y \<le> f"
  shows "single_precision \<lparr>rounded = rnd, exp32 = (\<lambda>a. rnd (exp a)), log32 = (\<lambda>a. rnd (ln a))\<rparr>"
proof -
  let ?ar = "\<lparr>rounded = rnd, exp32 = (\<lambda>a. rnd (exp a)), log32 = (\<lambda>a. rnd (ln a))\<rparr>"
  have n: "number ?ar a \<longleftrightarrow> rnd a = Finite a" for a
    by (simp add: number_def)
  have e: "exp32 ?ar x = PlusInfinity \<or> (\<exists>y. exp32 ?ar x = Finite y \<and> 0 \<le> y \<and> number ?ar y)"
    for x
    using pos [of "exp x"] by (simp add: n)
  have l: "log32 ?ar p = MinusInfinity \<or> (\<exists>l. log32 ?ar p = Finite l \<and> l \<le> 0 \<and> number ?ar l)"
    if "0 < p \<and> p \<le> 1" for p
  proof -
    have "0 \<le> - ln p" using that by simp
    from pos [OF this] show ?thesis
    proof
      assume "rnd (- ln p) = PlusInfinity"
      then have "rnd (ln p) = MinusInfinity"
        using sym [of "ln p"] by (cases "rnd (ln p)") simp_all
      then show ?thesis by simp
    next
      assume "\<exists>y. rnd (- ln p) = Finite y \<and> 0 \<le> y \<and> rnd y = Finite y"
      then obtain y where y: "rnd (- ln p) = Finite y" "0 \<le> y" "rnd y = Finite y" by blast
      have "rnd (ln p) = Finite (- y)"
        using sym [of "ln p"] y(1) by (cases "rnd (ln p)") simp_all
      moreover have "rnd (- y) = Finite (- y)"
        using sym [of y] y(3) by simp
      ultimately show ?thesis using y(2) by (simp add: n)
    qed
  qed
  show ?thesis
    unfolding single_precision_def
  proof (intro conjI allI impI)
    show "rounded ?ar 0 = Finite 0" "rounded ?ar 1 = Finite 1"
      by (simp_all add: r0 r1)
    show "rounded ?ar (- x) = f32_neg (rounded ?ar x)" for x
      by (simp add: sym)
    show "rounded ?ar x = PlusInfinity \<or> (\<exists>y. rounded ?ar x = Finite y \<and> 0 \<le> y \<and> number ?ar y)"
      if "0 \<le> x" for x
      using pos [OF that] by (simp add: n)
    show "f \<le> y" if "number ?ar f \<and> 0 \<le> f \<and> f \<le> x \<and> rounded ?ar x = Finite y" for f x y
      using that ge [of f x y] by (simp add: n)
    show "\<exists>y. rounded ?ar x = Finite y \<and> y \<le> f" if "number ?ar f \<and> 0 \<le> x \<and> x \<le> f" for f x
      using that le [of f x] by (simp add: n)
    show "exp32 ?ar x = PlusInfinity \<or> (\<exists>y. exp32 ?ar x = Finite y \<and> 0 \<le> y \<and> number ?ar y)"
      for x
      by (rule e)
    show "log32 ?ar p = MinusInfinity \<or> (\<exists>l. log32 ?ar p = Finite l \<and> l \<le> 0 \<and> number ?ar l)"
      if "0 < p \<and> p \<le> 1" for p
      using that by (rule l)
  qed
qed

subsection \<open>The arithmetic binary32\<close>

lemma round32_Finite_iff: "round32 a = Finite a \<longleftrightarrow> representable a"
proof
  assume a: "round32 a = Finite a"
  show "representable a"
  proof (cases a rule: round32_cases)
    case fin
    with a have "nearest a = a" by simp
    with fin(2) nearest_representable [of a] show ?thesis by simp
  qed (use a in simp_all)
next
  assume "representable a"
  then show "round32 a = Finite a" by (rule round32_representable)
qed

lemma round32_Finite_representable:
  assumes "round32 x = Finite y"
  shows "representable y"
proof (cases x rule: round32_cases)
  case fin
  with assms have "y = nearest x" by simp
  with nearest_representable [OF fin(2)] show ?thesis by simp
qed (use assms in simp_all)

lemma round32_nonneg_cases:
  assumes "0 \<le> x"
  shows "round32 x = PlusInfinity \<or> (\<exists>y. round32 x = Finite y \<and> 0 \<le> y \<and> representable y)"
proof (cases x rule: round32_cases)
  case fin
  then show ?thesis
    using assms nearest_nonneg [of x] nearest_representable [of x] by simp
next
  case pinf
  then show ?thesis by simp
next
  case minf
  with assms have "x = 0" by simp
  with minf show ?thesis by simp
qed

lemma round32_ge:
  assumes "representable f" "0 \<le> f" "f \<le> x" "round32 x = Finite y"
  shows "f \<le> y"
proof -
  have "y = nearest x"
    using assms(4) by (cases x rule: round32_cases) simp_all
  then show ?thesis
    using nearest_ge [OF assms(1-3)] by simp
qed

lemma round32_le:
  assumes "representable f" "0 \<le> x" "x \<le> f"
  shows "round32 x = Finite (nearest x) \<and> 0 \<le> nearest x \<and> nearest x \<le> f"
proof -
  have lo: "0 \<le> nearest x" using assms(2) by (rule nearest_nonneg)
  have hi: "nearest x \<le> f" using assms by (rule nearest_le)
  have "\<bar>f\<bar> < 2 powr 128" using assms(1) by (simp add: representable_def)
  with lo hi have "\<not> 2 powr 128 \<le> \<bar>nearest x\<bar>" by linarith
  then have "round32 x = Finite (nearest x)"
    by (simp only: round32_nearest if_False)
  with lo hi show ?thesis by simp
qed

lemma single_precision_binary32: "single_precision binary32"
  unfolding binary32_def
proof (rule single_precisionI)
  show "round32 0 = Finite 0" by simp
  show "round32 1 = Finite 1" by (rule round32_representable) simp
  show "round32 (- x) = f32_neg (round32 x)" for x by (rule round32_minus)
  show "round32 x = PlusInfinity \<or> (\<exists>y. round32 x = Finite y \<and> 0 \<le> y \<and> round32 y = Finite y)"
    if "0 \<le> x" for x
    using round32_nonneg_cases [OF that] by (simp add: round32_Finite_iff)
  show "f \<le> y" if "round32 f = Finite f" "0 \<le> f" "f \<le> x" "round32 x = Finite y" for f x y
    using that by (intro round32_ge [of f x y]) (simp_all add: round32_Finite_iff)
  show "\<exists>y. round32 x = Finite y \<and> y \<le> f" if "round32 f = Finite f" "0 \<le> x" "x \<le> f" for f x
    using that round32_le [of f x] by (simp add: round32_Finite_iff)
qed

lemma number_binary32: "number binary32 a \<longleftrightarrow> representable a"
  by (simp add: number_def binary32_def round32_Finite_iff)

subsection \<open>The arithmetic binary32 with subnormal results flushed to zero\<close>

lemma flush32_representable:
  assumes "representable a" "a = 0 \<or> 2 powr (- 126) \<le> \<bar>a\<bar>"
  shows "flush32 a = Finite a"
  using assms by (auto simp: flush32_def round32_representable)

lemma flush32_Finite_iff:
  "flush32 a = Finite a \<longleftrightarrow> representable a \<and> (a = 0 \<or> 2 powr (- 126) \<le> \<bar>a\<bar>)"
proof
  assume a: "flush32 a = Finite a"
  then obtain y where y: "round32 a = Finite y"
    by (cases "round32 a") (simp_all add: flush32_def)
  have ry: "representable y"
    using y by (rule round32_Finite_representable)
  show "representable a \<and> (a = 0 \<or> 2 powr (- 126) \<le> \<bar>a\<bar>)"
  proof (cases "\<bar>y\<bar> < 2 powr (- 126)")
    case True
    with a y have "a = 0" by (simp add: flush32_def)
    then show ?thesis by simp
  next
    case False
    with a y have "a = y" by (simp add: flush32_def)
    with False ry show ?thesis by simp
  qed
next
  assume "representable a \<and> (a = 0 \<or> 2 powr (- 126) \<le> \<bar>a\<bar>)"
  then show "flush32 a = Finite a" by (intro flush32_representable) simp_all
qed

lemma flush32_minus: "flush32 (- x) = f32_neg (flush32 x)"
  by (cases "round32 x") (simp_all add: flush32_def round32_minus)

lemma flush32_nonneg_cases:
  assumes "0 \<le> x"
  shows "flush32 x = PlusInfinity \<or> (\<exists>y. flush32 x = Finite y \<and> 0 \<le> y \<and> flush32 y = Finite y)"
proof -
  from round32_nonneg_cases [OF assms] show ?thesis
  proof
    assume "round32 x = PlusInfinity"
    then show ?thesis by (simp add: flush32_def)
  next
    assume "\<exists>y. round32 x = Finite y \<and> 0 \<le> y \<and> representable y"
    then obtain y where y: "round32 x = Finite y" "0 \<le> y" "representable y" by blast
    show ?thesis
    proof (cases "\<bar>y\<bar> < 2 powr (- 126)")
      case True
      with y have "flush32 x = Finite 0" by (simp add: flush32_def)
      moreover have "flush32 0 = Finite 0" by (simp add: flush32_Finite_iff)
      ultimately show ?thesis by simp
    next
      case False
      with y have "flush32 x = Finite y" by (simp add: flush32_def)
      moreover have "flush32 y = Finite y" using y(3) False by (simp add: flush32_Finite_iff)
      ultimately show ?thesis using y(2) by simp
    qed
  qed
qed

lemma single_precision_binary32_flushed: "single_precision binary32_flushed"
  unfolding binary32_flushed_def
proof (rule single_precisionI)
  show "flush32 0 = Finite 0" by (simp add: flush32_Finite_iff)
  have "(2::real) powr (- 126) \<le> 2 powr 0" by (intro powr_mono) simp_all
  then show "flush32 1 = Finite 1" by (simp add: flush32_Finite_iff)
  show "flush32 (- x) = f32_neg (flush32 x)" for x by (rule flush32_minus)
  show "flush32 x = PlusInfinity \<or> (\<exists>y. flush32 x = Finite y \<and> 0 \<le> y \<and> flush32 y = Finite y)"
    if "0 \<le> x" for x
    using that by (rule flush32_nonneg_cases)
  show "f \<le> y" if f: "flush32 f = Finite f" "0 \<le> f" "f \<le> x" and y: "flush32 x = Finite y"
    for f x y
  proof -
    from y obtain y0 where y0: "round32 x = Finite y0"
      by (cases "round32 x") (simp_all add: flush32_def)
    have rf: "representable f" "f = 0 \<or> 2 powr (- 126) \<le> \<bar>f\<bar>"
      using f(1) by (simp_all add: flush32_Finite_iff)
    have le: "f \<le> y0"
      using rf(1) f(2,3) y0 by (rule round32_ge)
    show ?thesis
    proof (cases "\<bar>y0\<bar> < 2 powr (- 126)")
      case True
      with y y0 have "y = 0" by (simp add: flush32_def)
      moreover have "f = 0" using True le rf(2) f(2) by auto
      ultimately show ?thesis by simp
    next
      case False
      with y y0 have "y = y0" by (simp add: flush32_def)
      with le show ?thesis by simp
    qed
  qed
  show "\<exists>y. flush32 x = Finite y \<and> y \<le> f" if f: "flush32 f = Finite f" "0 \<le> x" "x \<le> f"
    for f x
  proof -
    have rf: "representable f"
      using f(1) by (simp add: flush32_Finite_iff)
    from round32_le [OF rf f(2,3)]
    have r: "round32 x = Finite (nearest x)" "0 \<le> nearest x" "nearest x \<le> f" by simp_all
    show ?thesis
      using r f(2,3) by (cases "\<bar>nearest x\<bar> < 2 powr (- 126)") (auto simp: flush32_def)
  qed
qed

lemma number_binary32_flushed:
  "number binary32_flushed a \<longleftrightarrow> representable a \<and> (a = 0 \<or> 2 powr (- 126) \<le> \<bar>a\<bar>)"
  by (simp add: number_def binary32_flushed_def flush32_Finite_iff)

subsection \<open>Two evaluations\<close>

lemma upt_10: "[0..<10] = [0, 1, 2, 3, 4, 5, 6, 7, 8, 9::nat]"
  by (simp add: upt_rec)

lemma replicate_10: "replicate 10 z = [z, z, z, z, z, z, z, z, z, z]"
  by (simp add: numeral_eq_Suc)

lemma small_numbers:
  assumes "small_values ar"
  shows "rounded ar 1 = Finite 1" "rounded ar 2 = Finite 2" "rounded ar 3 = Finite 3"
    "rounded ar 4 = Finite 4" "rounded ar 5 = Finite 5" "rounded ar 6 = Finite 6"
    "rounded ar 7 = Finite 7" "rounded ar 8 = Finite 8" "rounded ar 9 = Finite 9"
    "rounded ar 10 = Finite 10" "rounded ar (- 200) = Finite (- 200)"
proof -
  have n: "rounded ar (of_int m) = Finite (of_int m)" if "\<bar>m\<bar> \<le> 200" for m :: int
    using assms that by (simp add: small_values_def number_def)
  show "rounded ar 1 = Finite 1" "rounded ar 2 = Finite 2" "rounded ar 3 = Finite 3"
    "rounded ar 4 = Finite 4" "rounded ar 5 = Finite 5" "rounded ar 6 = Finite 6"
    "rounded ar 7 = Finite 7" "rounded ar 8 = Finite 8" "rounded ar 9 = Finite 9"
    "rounded ar 10 = Finite 10" "rounded ar (- 200) = Finite (- 200)"
    using n [of 1] n [of 2] n [of 3] n [of 4] n [of 5] n [of 6] n [of 7] n [of 8] n [of 9]
      n [of 10] n [of "- 200"]
    by simp_all
qed

lemma f32_log_rounded_finite:
  assumes "single_precision ar" "small_values ar" "1 / 16 \<le> q" "q \<le> 1"
  shows "\<exists>l. f32_log ar (rounded ar q) = Finite l \<and> l \<le> 0 \<and> number ar l"
proof -
  have n16: "number ar (1 / 16)"
    using assms(2) by (simp add: small_values_def)
  obtain p where p: "rounded ar q = Finite p" "p \<le> 1"
    using rounded_le [OF assms(1) number_1 [OF assms(1)], of q] assms(3,4) by auto
  have lo: "1 / 16 \<le> p"
    using assms(1) n16 _ assms(3) p(1) by (rule rounded_ge) simp
  then have pos: "0 < p" by simp
  have "is_finite32 (log32 ar p)"
    using assms(2) lo p(2) by (simp add: small_values_def)
  moreover have "log32 ar p = MinusInfinity
      \<or> (\<exists>l. log32 ar p = Finite l \<and> l \<le> 0 \<and> number ar l)"
    using assms(1) pos p(2) unfolding single_precision_def by blast
  ultimately have "\<exists>l. log32 ar p = Finite l \<and> l \<le> 0 \<and> number ar l"
    by (auto simp: is_finite32_def)
  then show ?thesis
    using p(1) pos by simp
qed

lemma shape_ok32_zero_variables32: "shape_ok32 zero_variables32"
  by (simp add: shape_ok32_def is_matrix32_def zero_variables32_def)

lemma dot32_zeros:
  assumes "single_precision ar"
  shows "dot32 ar (replicate n (Finite 0)) (replicate n (Finite 0)) = Finite 0"
proof -
  have "map2 (f32_mul ar) (replicate n (Finite 0)) (replicate n (Finite 0)) = replicate n (Finite 0)"
    using assms by (induction n) simp_all
  then show ?thesis
    using assms by (simp add: dot32_def sum32_def foldl_add_zeros canonical_def number_0)
qed

lemma col32_replicate: "col32 (replicate n r) k = replicate n (r ! k)"
  by (simp add: col32_def)

lemma lin32_zero:
  assumes "single_precision ar"
  shows "lin32 ar zero_variables32 [black_image] = [replicate 10 (Finite 0)]"
proof -
  have nc: "ncols32 (weights32 zero_variables32) = 10"
    by (rule ncols32_weights32) (rule shape_ok32_zero_variables32)
  have w: "weights32 zero_variables32 = replicate 784 (replicate 10 (Finite 0))"
    "bias32 zero_variables32 = replicate 10 (Finite 0)"
    by (simp_all add: zero_variables32_def)
  show ?thesis
    unfolding lin32_def matmul32_def nc using assms
    by (simp add: w black_image_def upt_10 col32_replicate dot32_zeros replicate_10)
qed

lemma log_prob32_zero:
  assumes "single_precision ar" "small_values ar"
  shows "log_prob32 ar zero_variables32 [black_image] =
     [replicate 10 (f32_log ar (rounded ar (1 / 10)))]"
proof -
  have e: "exp32 ar 0 = Finite 1"
    using assms(2) by (simp add: small_values_def)
  show ?thesis
    by (simp add: log_prob32_def prob32_def Z32_def elin32_def lin32_zero [OF assms(1)]
        replicate_10 sum32_def e small_numbers [OF assms(2)])
qed

lemma dot32_unit:
  assumes "single_precision ar" "number ar w"
  shows "dot32 ar (Finite 1 # replicate n (Finite 0)) (Finite w # replicate n (Finite 0)) = Finite w"
proof -
  have "map2 (f32_mul ar) (replicate n (Finite 0)) (replicate n (Finite 0)) = replicate n (Finite 0)"
    using assms(1) by (induction n) simp_all
  then show ?thesis
    using assms by (simp add: dot32_def sum32_def foldl_add_zeros canonical_def number_def)
qed

lemma col32_Cons_replicate:
  "col32 (r # replicate n z) k = (r ! k) # replicate n (z ! k)"
  by (simp add: col32_def)

lemma lin32_underflow:
  assumes "single_precision ar" "small_values ar"
  shows "lin32 ar underflow_variables [unit_image] =
     [map Finite [0, - 200, 0, 0, 0, 0, 0, 0, 0, 0]]"
proof -
  have n: "number ar 0" "number ar (- 200)"
    using assms small_numbers(11) [OF assms(2)] by (simp_all add: number_def)
  show ?thesis
    using assms(1) n
    by (simp add: lin32_def matmul32_def underflow_variables_def unit_image_def ncols32_def
        upt_10 col32_Cons_replicate dot32_unit)
      (simp add: replicate_10 number_def)
qed

lemma elin32_underflow:
  assumes "single_precision ar" "small_values ar"
  shows "elin32 ar underflow_variables [unit_image] = [map Finite [1, 0, 1, 1, 1, 1, 1, 1, 1, 1]]"
  using assms(2) by (simp add: elin32_def lin32_underflow [OF assms] small_values_def)

lemma Z32_underflow:
  assumes "single_precision ar" "small_values ar"
  shows "Z32 ar underflow_variables [unit_image] = [[Finite 9]]"
  by (simp add: Z32_def elin32_underflow [OF assms] sum32_def small_numbers [OF assms(2)])

lemma log_prob32_underflow:
  assumes "single_precision ar" "small_values ar"
  shows "log_prob32 ar underflow_variables [unit_image] =
     [[f32_log ar (rounded ar (1 / 9)), MinusInfinity, f32_log ar (rounded ar (1 / 9)),
       f32_log ar (rounded ar (1 / 9)), f32_log ar (rounded ar (1 / 9)),
       f32_log ar (rounded ar (1 / 9)), f32_log ar (rounded ar (1 / 9)),
       f32_log ar (rounded ar (1 / 9)), f32_log ar (rounded ar (1 / 9)),
       f32_log ar (rounded ar (1 / 9))]]"
  using assms(1)
  by (simp add: log_prob32_def prob32_def elin32_underflow [OF assms] Z32_underflow [OF assms])

lemma loss32_underflow_nan:
  assumes "single_precision ar" "small_values ar"
  shows "loss32 ar underflow_variables [unit_image] [0] = Inr NotANumber"
proof -
  have "mul32 ar (determ32 [0]) (log_prob32 ar underflow_variables [unit_image]) = Inr P \<Longrightarrow>
      NotANumber \<in> set (concat P)" for P
    by (auto simp: mul32_def broadcast_rows_def broadcast_to32_def determ32_def determ_def
        one_hot_def upt_10 log_prob32_underflow [OF assms])
  moreover have "\<exists>P. mul32 ar (determ32 [0]) (log_prob32 ar underflow_variables [unit_image]) = Inr P"
    by (simp add: mul32_def broadcast_rows_def determ32_def determ_def one_hot_def)
  ultimately obtain P
    where P: "mul32 ar (determ32 [0]) (log_prob32 ar underflow_variables [unit_image]) = Inr P"
      "NotANumber \<in> set (concat P)" by blast
  have "reduce_mean32 ar P = NotANumber"
    using sum32_nan [OF P(2)] by (simp add: reduce_mean32_def)
  then show ?thesis
    using P(1) by (simp add: loss32_def)
qed



lemma tenth_mean_nll_underflow:
  assumes "single_precision ar" "small_values ar"
  shows "is_finite32 (tenth_mean_nll ar underflow_variables [unit_image] [0])"
proof -
  obtain l where l: "f32_log ar (rounded ar (1 / 9)) = Finite l" "l \<le> 0" "number ar l"
    using f32_log_rounded_finite [OF assms, of "1 / 9"] by auto
  have nl: "number ar (- l)"
    using l(3) number_minus [OF assms(1)] by simp
  then have "rounded ar (- l) = Finite (- l)"
    by (simp add: number_def)
  then have t: "tenth_mean_nll ar underflow_variables [unit_image] [0] =
      f32_div ar (Finite (- l)) (Finite 10)"
    by (simp add: tenth_mean_nll_def log_prob32_underflow [OF assms] l sum32_def
        small_numbers [OF assms(2)])
  have "\<exists>y. rounded ar (- l / 10) = Finite y \<and> y \<le> - l"
    using assms(1) nl by (rule rounded_le) (use l(2) in simp_all)
  then show ?thesis
    unfolding t by (auto simp: is_finite32_def)
qed

subsection \<open>The two arithmetics at small values\<close>

lemma round32_ln_finite:
  assumes "1 / 16 \<le> p" "p \<le> 1"
  shows "\<exists>l. round32 (ln p) = Finite l"
proof -
  have pos: "0 < p" using assms(1) by simp
  have up: "ln p \<le> 0" using pos assms(2) by simp
  have "ln (1 / p) \<le> 1 / p - 1"
    using pos by (intro ln_le_minus_one) simp
  moreover have "1 / p \<le> 16"
    using pos assms(1) by (simp add: divide_le_eq mult.commute)
  moreover have "ln (1 / p) = - ln p"
    using pos by (simp add: ln_div)
  ultimately have low: "- ln p \<le> 15" by linarith
  have r15: "representable 15"
    using representable_of_int [of 15] by simp
  have "round32 (- ln p) = Finite (nearest (- ln p))"
    using round32_le [OF r15, of "- ln p"] up low by simp
  then show ?thesis
    using round32_minus [of "ln p"] by (cases "round32 (ln p)") simp_all
qed

lemma small_values_binary32: "small_values binary32"
proof -
  have i: "representable (of_int m)" if "\<bar>m\<bar> \<le> 200" for m :: int
  proof -
    have "\<bar>real_of_int m\<bar> \<le> 200" using that by linarith
    moreover have "(200::real) < 2 powr 24" by simp
    ultimately show ?thesis by (intro representable_of_int) linarith
  qed
  have r16: "representable (1 / 16)"
    using representable_scaled [of "- 4" 1] by (simp add: powr_minus)
  have e0: "round32 (exp 0) = Finite 1"
    by (simp add: round32_representable)
  have e200: "round32 (exp (- 200)) = Finite 0"
    using round32_underflow [OF _ exp_minus_200] by simp
  have l: "is_finite32 (round32 (ln p))" if "1 / 16 \<le> p \<and> p \<le> 1" for p
    using round32_ln_finite [of p] that by (auto simp: is_finite32_def)
  show ?thesis
    unfolding small_values_def number_binary32
    using i r16 e0 e200 l by (simp add: binary32_def)
qed

lemma small_values_binary32_flushed: "small_values binary32_flushed"
proof -
  have i: "representable (of_int m) \<and> (real_of_int m = 0 \<or> 2 powr (- 126) \<le> \<bar>real_of_int m\<bar>)"
    if "\<bar>m\<bar> \<le> 200" for m :: int
  proof -
    have "\<bar>real_of_int m\<bar> \<le> 200" using that by linarith
    moreover have "(200::real) < 2 powr 24" by simp
    ultimately have "representable (of_int m)" by (intro representable_of_int) linarith
    moreover have "real_of_int m = 0 \<or> 2 powr (- 126) \<le> \<bar>real_of_int m\<bar>"
    proof (cases "m = 0")
      case False
      then have "1 \<le> \<bar>real_of_int m\<bar>" by linarith
      moreover have "(2::real) powr (- 126) \<le> 2 powr 0" by (intro powr_mono) simp_all
      ultimately show ?thesis by simp
    qed simp
    ultimately show ?thesis by simp
  qed
  have r16: "representable (1 / 16)"
    using representable_scaled [of "- 4" 1] by (simp add: powr_minus)
  have "(2::real) powr (- 126) \<le> 2 powr (- 4)" by (intro powr_mono) simp_all
  then have s16: "2 powr (- 126) \<le> \<bar>1 / 16 :: real\<bar>" by (simp add: powr_minus)
  have "(2::real) powr (- 126) \<le> 2 powr 0" by (intro powr_mono) simp_all
  then have e0: "flush32 (exp 0) = Finite 1"
    by (simp add: flush32_Finite_iff)
  have "round32 (exp (- 200)) = Finite 0"
    using round32_underflow [OF _ exp_minus_200] by simp
  then have e200: "flush32 (exp (- 200)) = Finite 0"
    by (simp add: flush32_def)
  have l: "is_finite32 (flush32 (ln p))" if "1 / 16 \<le> p \<and> p \<le> 1" for p
    using round32_ln_finite [of p] that by (auto simp: is_finite32_def flush32_def)
  show ?thesis
    unfolding small_values_def number_binary32_flushed
    using i r16 s16 e0 e200 l by (simp add: binary32_flushed_def)
qed

subsection \<open>The value of the objective\<close>




text \<open>
  C10, as the code has it. In every single-precision arithmetic, for parameters of the
  notebook's shapes and a batch of \<open>N\<close> samples whose labels are classes \<open>0..9\<close>: if the
  log-probability of every class other than the sample's label is finite, the objective
  is the single-precision sum over the samples of the negative log-probability of the
  true label, divided by \<open>N * 10\<close>.
\<close>

theorem objective_tenth_mean_nll:
  assumes "single_precision ar" and "shape_ok32 s" and "length ls = length x"
    and "\<forall>l \<in> set ls. 0 \<le> l \<and> l < 10"
    and "\<forall>n < length x. \<forall>k < 10. int k \<noteq> ls ! n \<longrightarrow> is_finite32 (log_prob32 ar s x ! n ! k)"
  shows "loss32 ar s x ls = Inr (tenth_mean_nll ar s x ls)"
  using assms by (rule loss32_tenth_mean_nll)

theorem objective_tenth_mean_nll_witness:
  "single_precision binary32 \<and> shape_ok32 zero_variables32 \<and>
   length [3::int] = length [black_image] \<and> set [3::int] \<subseteq> {0..<10} \<and>
   loss32 binary32 zero_variables32 [black_image] [3] =
     Inr (tenth_mean_nll binary32 zero_variables32 [black_image] [3])"
proof -
  obtain l where l: "f32_log binary32 (rounded binary32 (1 / 10)) = Finite l"
    using f32_log_rounded_finite [OF single_precision_binary32 small_values_binary32, of "1 / 10"]
    by auto
  have fin: "\<forall>n < length [black_image]. \<forall>k < 10. int k \<noteq> [3] ! n \<longrightarrow>
      is_finite32 (log_prob32 binary32 zero_variables32 [black_image] ! n ! k)"
    by (simp add: log_prob32_zero [OF single_precision_binary32 small_values_binary32] l
        is_finite32_def)
  show ?thesis
    using objective_tenth_mean_nll [OF single_precision_binary32 shape_ok32_zero_variables32 _ _ fin]
      shape_ok32_zero_variables32 single_precision_binary32
    by simp
qed

text \<open>
  C10 as stated fails where a class other than the label has probability zero: at the
  parameters with the weight - 200 and the label 0, the objective is NaN, while a tenth
  of the negative log-probability of the label is a finite number.
\<close>

theorem objective_differs_from_tenth_mean_nll:
  "loss32 binary32 underflow_variables [unit_image] [0] = Inr NotANumber \<and>
   is_finite32 (tenth_mean_nll binary32 underflow_variables [unit_image] [0]) \<and>
   loss32 binary32_flushed underflow_variables [unit_image] [0] = Inr NotANumber \<and>
   is_finite32 (tenth_mean_nll binary32_flushed underflow_variables [unit_image] [0])"
  by (simp add: loss32_underflow_nan tenth_mean_nll_underflow
      single_precision_binary32 small_values_binary32
      single_precision_binary32_flushed small_values_binary32_flushed)

end
